theory Spec2Isabelle
  imports Complex_Main "HOL-Library.Sublist" "HOL-Library.Char_ord" "HOL-Library.List_Lexorder"
begin

section \<open>Pop Watch Tracker: the recommendation engine (recommend.js)\<close>

text \<open>
  A shallow embedding of \<^verbatim>\<open>src/recommend.js\<close>. A JavaScript string is a sequence of
  UTF-16 code units; the embedding covers the strings whose code units are below 256
  (Latin-1), one \<^typ>\<open>char\<close> per code unit, so that \<^term>\<open>length\<close> is the
  \<^verbatim>\<open>.length\<close> of the source and the order of \<^typ>\<open>char\<close> is the order of code units.
\<close>

subsection \<open>String primitives of the language\<close>

text \<open>\<^verbatim>\<open>String.prototype.toLowerCase\<close> on Latin-1: A-Z, and the letters U+00C0..U+00DE
  apart from the multiplication sign U+00D7, move up by 32.\<close>

definition isUpperCase :: "char \<Rightarrow> bool" where
  "isUpperCase c =
     (let n = (of_char c :: nat)
      in (65 \<le> n \<and> n \<le> 90) \<or> (192 \<le> n \<and> n \<le> 222 \<and> n \<noteq> 215))"

definition toLowerChar :: "char \<Rightarrow> char" where
  "toLowerChar c = (if isUpperCase c then char_of ((of_char c :: nat) + 32) else c)"

definition toLowerCase :: "string \<Rightarrow> string" where
  "toLowerCase s = map toLowerChar s"

text \<open>White space and line terminators that \<^verbatim>\<open>trim\<close> removes, among the Latin-1 code
  units: TAB, LF, VT, FF, CR, SP and NBSP.\<close>

definition isWhiteSpace :: "char \<Rightarrow> bool" where
  "isWhiteSpace c = ((of_char c :: nat) \<in> {9, 10, 11, 12, 13, 32, 160})"

definition trim :: "string \<Rightarrow> string" where
  "trim s = rev (dropWhile isWhiteSpace (rev (dropWhile isWhiteSpace s)))"

text \<open>\<^verbatim>\<open>s.split(',')\<close>: the pieces between the commas; the empty string gives one empty
  piece.\<close>

fun split_comma :: "string \<Rightarrow> string list" where
  "split_comma [] = [[]]"
| "split_comma (c # cs) =
     (if c = CHR '','' then [] # split_comma cs
      else (case split_comma cs of [] \<Rightarrow> [[c]] | p # ps \<Rightarrow> (c # p) # ps))"

text \<open>\<^verbatim>\<open>s.includes(q)\<close>: \<open>q\<close> occurs in \<open>s\<close> at some position.\<close>

fun includes_str :: "string \<Rightarrow> string \<Rightarrow> bool" where
  "includes_str [] q = (q = [])"
| "includes_str (c # cs) q = (prefix q (c # cs) \<or> includes_str cs q)"

subsection \<open>Data model\<close>

text \<open>The \<^verbatim>\<open>tags\<close> field of a show: absent (or any other falsy value but the empty string),
  an array of strings, a string, or a truthy value of another type.\<close>

datatype tags_field = TagsAbsent | TagsArray "string list" | TagsString string | TagsOther

text \<open>The \<^verbatim>\<open>updatedAt\<close> field of a show, when it is present: a number of milliseconds since
  the epoch, or a string that holds a date.\<close>

datatype timestamp = TimeNumber int | TimeString string

text \<open>A show.\<close>

record show_record =
  title :: string
  type :: string
  status :: string
  tags :: tags_field
  description :: "string option"
  "notes" :: "string option"
  overview :: "string option"
  posterUrl :: "string option"
  posterDataUrl :: "string option"
  updatedAt :: "timestamp option"

subsection \<open>Random selection\<close>

text \<open>A value of \<^verbatim>\<open>Math.random()\<close>: a binary64 number that is at least 0 and less than 1.
  These numbers are exactly the quotients \<open>mant / 2 ^ expo\<close> with \<open>mant < 2 ^ 53\<close> and
  \<open>53 \<le> expo \<le> 1074\<close>.\<close>

record random_value =
  mant :: nat
  expo :: nat

definition isRandomValue :: "random_value \<Rightarrow> bool" where
  "isRandomValue d = (mant d < 2 ^ 53 \<and> 53 \<le> expo d \<and> expo d \<le> 1074)"

definition valueOf :: "random_value \<Rightarrow> rat" where
  "valueOf d = of_nat (mant d) / 2 ^ expo d"

text \<open>The number of binary digits of a natural number.\<close>

function bitLength :: "nat \<Rightarrow> nat" where
  "bitLength a = (if a = 0 then 0 else Suc (bitLength (a div 2)))"
  by pat_completeness auto
termination
  by (relation "measure (\<lambda>a. a)") auto

declare bitLength.simps [simp del]

text \<open>\<open>a / 2 ^ s\<close> rounded to the nearest integer, a tie to the even one: the rounding of
  binary64 arithmetic.\<close>

definition roundHalfEven :: "nat \<Rightarrow> nat \<Rightarrow> nat" where
  "roundHalfEven a s =
     (let q = a div 2 ^ s; r = a mod 2 ^ s
      in if 2 * r < 2 ^ s then q
         else if 2 ^ s < 2 * r then q + 1
         else if even q then q else q + 1)"

text \<open>\<^verbatim>\<open>Math.random() * candidates.length\<close>, the binary64 product, as its numerator over
  \<open>2 ^ expo\<close>: the exact product \<open>mant * n\<close> when it has at most 53 binary digits, and
  otherwise the product rounded to 53 digits. The length of an array is below \<open>2 ^ 32\<close>,
  so it is a binary64 number itself and the product neither overflows nor is subnormal.\<close>

definition productNumerator :: "random_value \<Rightarrow> nat \<Rightarrow> nat" where
  "productNumerator d n =
     (let a = mant d * n; bits = bitLength a
      in if bits \<le> 53 then a else roundHalfEven a (bits - 53) * 2 ^ (bits - 53))"

text \<open>\<^verbatim>\<open>Math.floor(Math.random() * candidates.length)\<close>.\<close>

definition randomIndex :: "random_value \<Rightarrow> nat \<Rightarrow> nat" where
  "randomIndex d n = productNumerator d n div 2 ^ expo d"

text \<open>\<^verbatim>\<open>selectRandom(candidates)\<close>, lines 295-299. The first argument is the value that the
  call of \<^verbatim>\<open>Math.random()\<close> returns. \<open>None\<close> is the empty result: \<^verbatim>\<open>null\<close> for the empty
  list, and \<^verbatim>\<open>undefined\<close> where the index read is out of range.\<close>

definition selectRandom :: "random_value \<Rightarrow> 'a list \<Rightarrow> 'a option" where
  "selectRandom d candidates =
     (if length candidates = 0 then None
      else let i = randomIndex d (length candidates)
           in if i < length candidates then Some (candidates ! i) else None)"

text \<open>Three values of \<^verbatim>\<open>Math.random()\<close>: 0, one half, and 0.6666666666666666, the
  binary64 number next below two thirds.\<close>

definition randomZero :: random_value where
  "randomZero = \<lparr>mant = 0, expo = 53\<rparr>"

definition randomHalf :: random_value where
  "randomHalf = \<lparr>mant = 4503599627370496, expo = 53\<rparr>"

definition randomBelowTwoThirds :: random_value where
  "randomBelowTwoThirds = \<lparr>mant = 6004799503160661, expo = 53\<rparr>"

subsection \<open>Page state\<close>

text \<open>The module's global variables (lines 24-27). \<open>tagMap\<close> maps a tag to its checkbox;
  what the engine reads of a checkbox is whether it is checked.\<close>

record page_state =
  allShows :: "show_record list"
  uniqueTags :: "string list"
  filteredCandidates :: "show_record list"
  tagMap :: "string \<rightharpoonup> bool"

subsection \<open>Tag extraction\<close>

text \<open>\<^verbatim>\<open>Set.prototype.add\<close>, on a set kept as the list of its elements in insertion
  order (the order \<^verbatim>\<open>Array.from\<close> reads it in).\<close>

definition set_add :: "'a \<Rightarrow> 'a list \<Rightarrow> 'a list" where
  "set_add x tagSet = (if x \<in> set tagSet then tagSet else tagSet @ [x])"

text \<open>The tags of one show, as lines 77-83 and again lines 149-155 compute them: a falsy
  \<^verbatim>\<open>tags\<close> field (absent, or the empty string) and a field that is neither an array nor a
  string give no tag.\<close>

definition normalizeTags :: "tags_field \<Rightarrow> string list" where
  "normalizeTags t =
     (case t of
        TagsAbsent \<Rightarrow> []
      | TagsArray xs \<Rightarrow> map (\<lambda>tag. toLowerCase (trim tag)) xs
      | TagsString s \<Rightarrow>
          (if s = [] then [] else map (\<lambda>tag. toLowerCase (trim tag)) (split_comma s))
      | TagsOther \<Rightarrow> [])"

text \<open>\<^verbatim>\<open>extractUniqueTags()\<close>, lines 73-88. The default \<^verbatim>\<open>sort()\<close> of an array of strings
  orders them by their code units, which is the order of \<^typ>\<open>string\<close> here.\<close>

definition collectTags :: "show_record list \<Rightarrow> string list" where
  "collectTags showList =
     fold (\<lambda>sh tagSet. fold set_add (normalizeTags (tags sh)) tagSet) showList []"

definition extractUniqueTags :: "page_state \<Rightarrow> page_state" where
  "extractUniqueTags st = st\<lparr>uniqueTags := sort (collectTags (allShows st))\<rparr>"

text \<open>\<^verbatim>\<open>renderTagFilters()\<close>, lines 91-117: one unchecked checkbox for each tag, when the
  page has the container.\<close>

definition renderTagFilters :: "bool \<Rightarrow> page_state \<Rightarrow> page_state" where
  "renderTagFilters hasContainer st =
     (if \<not> hasContainer then st
      else st\<lparr>tagMap := fold (\<lambda>tag m. m(tag \<mapsto> False)) (uniqueTags st) (tagMap st)\<rparr>)"

subsection \<open>Filter engine\<close>

text \<open>The values of the three filter controls, as \<^verbatim>\<open>applyFilters\<close> reads them.\<close>

record filter_inputs =
  categoryValue :: string
  statusValue :: string
  searchValue :: string

definition selectedTagsOf :: "page_state \<Rightarrow> string list" where
  "selectedTagsOf st = filter (\<lambda>tag. tagMap st tag = Some True) (uniqueTags st)"

text \<open>\<^verbatim>\<open>field && field.toLowerCase().includes(searchQuery)\<close>, for an optional string field.\<close>

definition fieldIncludes :: "string option \<Rightarrow> string \<Rightarrow> bool" where
  "fieldIncludes field searchQuery =
     (case field of None \<Rightarrow> False
      | Some v \<Rightarrow> v \<noteq> [] \<and> includes_str (toLowerCase v) searchQuery)"

text \<open>The callback of \<^verbatim>\<open>allShows.filter\<close>, lines 134-173.\<close>

definition showMatches :: "string \<Rightarrow> string \<Rightarrow> string \<Rightarrow> string list \<Rightarrow> show_record \<Rightarrow> bool" where
  "showMatches category statusSel searchQuery selectedTags sh =
     (if category \<noteq> ''all'' \<and> type sh \<noteq> category then False
      else if statusSel \<noteq> ''all'' \<and> status sh \<noteq> statusSel then False
      else if length selectedTags > 0 \<and>
              \<not> list_all (\<lambda>tag. tag \<in> set (normalizeTags (tags sh))) selectedTags then False
      else if searchQuery \<noteq> [] \<and>
              \<not> fieldIncludes (Some (title sh)) searchQuery \<and>
              \<not> fieldIncludes (description sh) searchQuery \<and>
              \<not> fieldIncludes (notes sh) searchQuery then False
      else True)"

text \<open>The time value of a date is at most 8,640,000,000,000,000 milliseconds away from the
  epoch; a number beyond gives an invalid date, whose time value is \<^verbatim>\<open>NaN\<close> (\<open>None\<close>).\<close>

definition timeClip :: "int \<Rightarrow> int option" where
  "timeClip t = (if - 8640000000000000 \<le> t \<and> t \<le> 8640000000000000 then Some t else None)"

text \<open>\<^verbatim>\<open>new Date(show.updatedAt || 0)\<close> as a number: the epoch for a field that is absent,
  0 or the empty string; the clipped number; for a string what \<^verbatim>\<open>Date.parse\<close> makes of it,
  \<^verbatim>\<open>NaN\<close> (\<open>None\<close>) when it holds no date. \<open>Date_parse\<close> is the parser of the language.\<close>

definition dateOf :: "(string \<Rightarrow> int option) \<Rightarrow> show_record \<Rightarrow> int option" where
  "dateOf Date_parse sh =
     (case updatedAt sh of
        None \<Rightarrow> Some 0
      | Some (TimeNumber t) \<Rightarrow> if t = 0 then Some 0 else timeClip t
      | Some (TimeString s) \<Rightarrow>
          if s = [] then Some 0
          else (case Date_parse s of None \<Rightarrow> None | Some t \<Rightarrow> timeClip t))"

text \<open>The comparator of lines 176-180, \<^verbatim>\<open>dateB - dateA\<close>, as \<^verbatim>\<open>sort\<close> reads it: a result
  \<^verbatim>\<open>NaN\<close>, which an invalid date gives, counts as 0.\<close>

definition compareDates :: "(string \<Rightarrow> int option) \<Rightarrow> show_record \<Rightarrow> show_record \<Rightarrow> int" where
  "compareDates Date_parse a b =
     (case (dateOf Date_parse a, dateOf Date_parse b) of
        (Some dateA, Some dateB) \<Rightarrow> dateB - dateA
      | _ \<Rightarrow> 0)"

text \<open>\<^verbatim>\<open>Array.prototype.sort\<close> with a comparator, as a stable insertion sort: \<open>x\<close> goes before
  the first element that it does not follow. With a consistent comparator every
  implementation gives this order. With a comparator that is not consistent, as when a
  date is invalid, the language leaves the order to the implementation; the claims on the
  order assume valid dates.\<close>

fun insertBy :: "('a \<Rightarrow> 'a \<Rightarrow> int) \<Rightarrow> 'a \<Rightarrow> 'a list \<Rightarrow> 'a list" where
  "insertBy cmp x [] = [x]"
| "insertBy cmp x (y # ys) = (if cmp x y \<le> 0 then x # y # ys else y # insertBy cmp x ys)"

definition sortBy :: "('a \<Rightarrow> 'a \<Rightarrow> int) \<Rightarrow> 'a list \<Rightarrow> 'a list" where
  "sortBy cmp xs = foldr (insertBy cmp) xs []"

text \<open>\<^verbatim>\<open>applyFilters()\<close>, lines 120-184.\<close>

definition applyFilters ::
  "(string \<Rightarrow> int option) \<Rightarrow> filter_inputs \<Rightarrow> page_state \<Rightarrow> show_record list \<times> page_state" where
  "applyFilters Date_parse inp st =
     (let category = categoryValue inp;
          statusSel = statusValue inp;
          searchQuery = toLowerCase (searchValue inp);
          selectedTags = selectedTagsOf st;
          filtered = filter (showMatches category statusSel searchQuery selectedTags) (allShows st);
          sortedCandidates = sortBy (compareDates Date_parse) filtered
      in (sortedCandidates, st\<lparr>filteredCandidates := sortedCandidates\<rparr>))"

subsection \<open>The specification's vocabulary\<close>


text \<open>The sequence that is equivalent to a comma-joined string of tags: its pieces between
  the commas. Two shows are the same but for the form of their tags when the second is the
  first, or the first with its tags in sequence form.\<close>

definition sequenceForm :: "tags_field \<Rightarrow> tags_field" where
  "sequenceForm t = (case t of TagsString s \<Rightarrow> TagsArray (split_comma s) | _ \<Rightarrow> t)"

definition sameButTagForm :: "show_record \<Rightarrow> show_record \<Rightarrow> bool" where
  "sameButTagForm a b = (b = a \<or> b = a\<lparr>tags := sequenceForm (tags a)\<rparr>)"


subsection \<open>Example data\<close>

definition mkShow :: "string \<Rightarrow> tags_field \<Rightarrow> int option \<Rightarrow> show_record" where
  "mkShow t tg u =
     \<lparr>title = t, type = ''movie'', status = ''watching'', tags = tg, description = None,
      notes = None, overview = None, posterUrl = None, posterDataUrl = None,
      updatedAt = map_option TimeNumber u\<rparr>"

definition mkState :: "show_record list \<Rightarrow> page_state" where
  "mkState xs = \<lparr>allShows = xs, uniqueTags = [], filteredCandidates = [], tagMap = Map.empty\<rparr>"

text \<open>The example of the specification: show A with the tags \<open>x, y\<close> as a string and
  the earlier time, show B with the tag \<open>x\<close> as a sequence and the later time.\<close>

definition noDateStrings :: "string \<Rightarrow> int option" where
  "noDateStrings s = None"

definition noFilter :: filter_inputs where
  "noFilter = \<lparr>categoryValue = ''all'', statusValue = ''all'', searchValue = []\<rparr>"

definition exampleA :: show_record where
  "exampleA = mkShow ''A'' (TagsString ''x, y'') (Some 1)"

definition exampleB :: show_record where
  "exampleB = mkShow ''B'' (TagsArray [''x'']) (Some 2)"


subsection \<open>Configuration\<close>

text \<open>\<^verbatim>\<open>AI_CONFIG\<close>, lines 14-21. The header of the file tells the user to put a key into
  \<open>hf_key\<close>, so the operations take the configuration as an argument; \<open>AI_CONFIG\<close> is the
  value in the source.\<close>

record ai_config =
  provider :: string
  hf_key :: string
  model :: string
  maxCandidates :: nat
  maxPayloadBytes :: nat
  timeoutMs :: nat

definition AI_CONFIG :: ai_config where
  "AI_CONFIG =
     \<lparr>provider = ''hf'', hf_key = ''PUT_KEY_HERE'', model = ''facebook/bart-large-cnn'',
      maxCandidates = 20, maxPayloadBytes = 8000, timeoutMs = 8000\<rparr>"

subsection \<open>Values, errors and the world outside\<close>

text \<open>A parsed JSON value. Numbers are kept as integers: the selector never reads the value
  of a number, only whether it is zero.\<close>

datatype json =
  JNull | JBool bool | JNum int | JStr string | JArr "json list" | JObj "(string \<times> json) list"

text \<open>What the source throws: a \<^verbatim>\<open>TypeError\<close> (a read of a property of \<^verbatim>\<open>null\<close>, a call of
  what is no function, a rejected \<^verbatim>\<open>fetch\<close>), a \<^verbatim>\<open>SyntaxError\<close> (a failed parse), or an
  \<^verbatim>\<open>Error\<close> with its message.\<close>

datatype error = TypeError | SyntaxError | Error string

text \<open>The request that \<^verbatim>\<open>fetchHuggingFace\<close> sends, and what happens to it: the network
  fails, the timer aborts it before a response arrives, or a response arrives with a
  status and a body. The timer is cleared when the response arrives (line 270), before
  \<^verbatim>\<open>response.json()\<close> reads the body (line 276): the read gives the JSON of the body, fails
  to parse it, or never finishes.\<close>

record request =
  url :: string
  authorization :: string
  inputs :: string

datatype body_result = BodyStalled | BodyUnparseable | BodyJson json

datatype fetch_result = FetchNetworkError | FetchAborted | FetchResponse nat body_result

text \<open>What becomes of an asynchronous call: its promise settles, with a value or an error,
  or never settles.\<close>

datatype 'a settling = Settles 'a | NeverSettles

text \<open>What an operation reads of the page and the world: the \<^verbatim>\<open>ai-toggle\<close> checkbox (\<open>None\<close>
  when the page has none), the outcome of a request, \<^verbatim>\<open>JSON.parse\<close> (\<open>None\<close> when it throws)
  and the value of the next \<^verbatim>\<open>Math.random()\<close>.\<close>

record environment =
  aiToggle :: "bool option"
  fetch :: "request \<Rightarrow> fetch_result"
  JSON_parse :: "string \<Rightarrow> json option"
  random :: random_value

subsection \<open>Numbers and sizes in strings\<close>

definition digit_char :: "nat \<Rightarrow> char" where
  "digit_char d = char_of (48 + d)"

text \<open>The decimal digits of a natural number, as a template literal writes it.\<close>

function show_nat :: "nat \<Rightarrow> string" where
  "show_nat n = (if n < 10 then [digit_char n] else show_nat (n div 10) @ [digit_char (n mod 10)])"
  by pat_completeness auto
termination
  by (relation "measure (\<lambda>n. n)") auto

declare show_nat.simps [simp del]

text \<open>\<^verbatim>\<open>new Blob([s]).size\<close>: the length of the UTF-8 encoding, one byte for a code unit
  below 128 and two for the others below 256.\<close>

definition blobSize :: "string \<Rightarrow> nat" where
  "blobSize s = sum_list (map (\<lambda>c. if (of_char c :: nat) < 128 then 1 else 2) s)"

text \<open>\<^verbatim>\<open>a || b || c || ''\<close> on optional strings: the first that is present and not empty.\<close>

fun firstTruthy :: "string option list \<Rightarrow> string" where
  "firstTruthy [] = []"
| "firstTruthy (None # rest) = firstTruthy rest"
| "firstTruthy (Some v # rest) = (if v \<noteq> [] then v else firstTruthy rest)"

subsection \<open>The external text-generation call\<close>

text \<open>The regular expression \<^verbatim>\<open>/\{[\s\S]*\}/\<close>, as a backtracking matcher runs it.
  \<open>star_then_close\<close> is \<^verbatim>\<open>[\s\S]*\}\<close> at the head of the input: the star takes one more
  code unit first (it is greedy), and gives it back when the rest does not match.
  \<open>regex_match\<close> tries each start position from the left.\<close>

fun star_then_close :: "string \<Rightarrow> string option" where
  "star_then_close [] = None"
| "star_then_close (c # cs) =
     (case star_then_close cs of
        Some m \<Rightarrow> Some (c # m)
      | None \<Rightarrow> if c = CHR ''}'' then Some [c] else None)"

fun regex_match :: "string \<Rightarrow> string option" where
  "regex_match [] = None"
| "regex_match (c # cs) =
     (if c = CHR ''{'' then
        (case star_then_close cs of Some m \<Rightarrow> Some (c # m) | None \<Rightarrow> regex_match cs)
      else regex_match cs)"

text \<open>\<^verbatim>\<open>data[0]\<close>: throws on \<^verbatim>\<open>null\<close>; the first element of an array, the property \<open>0\<close> of
  an object, the first code unit of a string; \<^verbatim>\<open>undefined\<close> (\<open>None\<close>) otherwise.\<close>

definition index0 :: "json \<Rightarrow> error + json option" where
  "index0 data =
     (case data of
        JNull \<Rightarrow> Inl TypeError
      | JArr xs \<Rightarrow> Inr (case xs of [] \<Rightarrow> None | x # _ \<Rightarrow> Some x)
      | JObj kvs \<Rightarrow> Inr (map_of kvs ''0'')
      | JStr s \<Rightarrow> Inr (case s of [] \<Rightarrow> None | c # _ \<Rightarrow> Some (JStr [c]))
      | _ \<Rightarrow> Inr None)"

text \<open>\<^verbatim>\<open>x?.key\<close> and \<^verbatim>\<open>x.key\<close> on a value that is not \<^verbatim>\<open>null\<close>: only an object has the
  keys that the source reads.\<close>

definition getProp :: "json \<Rightarrow> string \<Rightarrow> json option" where
  "getProp x key = (case x of JObj kvs \<Rightarrow> map_of kvs key | _ \<Rightarrow> None)"

definition optProp :: "json option \<Rightarrow> string \<Rightarrow> json option" where
  "optProp x key = (case x of None \<Rightarrow> None | Some v \<Rightarrow> getProp v key)"

text \<open>\<^verbatim>\<open>g?.match(/\{[\s\S]*\}/)\<close>: \<^verbatim>\<open>undefined\<close> for \<^verbatim>\<open>undefined\<close> and \<^verbatim>\<open>null\<close>, the match
  on a string, and a \<^verbatim>\<open>TypeError\<close> on any other value, which has no method \<^verbatim>\<open>match\<close>.\<close>

definition optMatch :: "json option \<Rightarrow> error + string option" where
  "optMatch g =
     (case g of
        None \<Rightarrow> Inr None
      | Some JNull \<Rightarrow> Inr None
      | Some (JStr s) \<Rightarrow> Inr (regex_match s)
      | Some _ \<Rightarrow> Inl TypeError)"

text \<open>Lines 278-284: the JSON of the response text.\<close>

definition extractJson :: "environment \<Rightarrow> json \<Rightarrow> error + json" where
  "extractJson env data =
     (case index0 data of
        Inl e \<Rightarrow> Inl e
      | Inr x \<Rightarrow>
          (case optMatch (optProp x ''generated_text'') of
             Inl e \<Rightarrow> Inl e
           | Inr None \<Rightarrow> Inl (Error ''No valid JSON found in response'')
           | Inr (Some jsonMatch) \<Rightarrow>
               (case JSON_parse env jsonMatch of None \<Rightarrow> Inl SyntaxError | Some v \<Rightarrow> Inr v)))"

definition hfRequest :: "ai_config \<Rightarrow> string \<Rightarrow> request" where
  "hfRequest cfg prompt =
     \<lparr>url = ''https://api-inference.huggingface.co/models/'' @ model cfg,
      authorization = ''Bearer '' @ hf_key cfg,
      inputs = prompt\<rparr>"

text \<open>\<^verbatim>\<open>fetchHuggingFace(prompt)\<close>, lines 252-292: the value it returns or the error it
  throws, when it settles, and the requests it has sent.\<close>

definition fetchHuggingFace ::
  "ai_config \<Rightarrow> environment \<Rightarrow> string \<Rightarrow> (error + json) settling \<times> request list" where
  "fetchHuggingFace cfg env prompt =
     (let req = hfRequest cfg prompt;
          res =
            (case fetch env req of
               FetchNetworkError \<Rightarrow> Settles (Inl TypeError)
             | FetchAborted \<Rightarrow> Settles (Inl (Error ''AI request timeout''))
             | FetchResponse st body \<Rightarrow>
                 if \<not> (200 \<le> st \<and> st \<le> 299)
                 then Settles (Inl (Error (''HTTP error! status: '' @ show_nat st)))
                 else (case body of
                         BodyStalled \<Rightarrow> NeverSettles
                       | BodyUnparseable \<Rightarrow> Settles (Inl SyntaxError)
                       | BodyJson data \<Rightarrow> Settles (extractJson env data)))
      in (res, [req]))"

subsection \<open>Assisted selection\<close>

text \<open>The first line of the prompt, line 198, and the line of one candidate, lines
  201-206.\<close>

definition promptHeader :: string where
  \<open>promptHeader = ''From the following list of candidate shows (title: short_description), select the single best show for tonight.\<newline>Return valid JSON only: {"title":"...","description":"..."}\<newline>Candidates:\<newline>''\<close>

definition shortDescription :: "show_record \<Rightarrow> string" where
  "shortDescription sh =
     (let description = firstTruthy [description sh, notes sh, overview sh]
      in if length description > 150 then take 150 description @ ''...'' else description)"

definition promptLine :: "nat \<Rightarrow> show_record \<Rightarrow> string" where
  "promptLine index sh =
     show_nat (index + 1) @ ''. '' @ title sh @ '': '' @ shortDescription sh @ ''\<newline>''"

definition buildPrompt :: "show_record list \<Rightarrow> string" where
  "buildPrompt limitedCandidates =
     fold (\<lambda>(index, sh) prompt. prompt @ promptLine index sh)
       (enumerate 0 limitedCandidates) promptHeader"

text \<open>Truthiness of a value.\<close>

definition truthy :: "json \<Rightarrow> bool" where
  "truthy v =
     (case v of JNull \<Rightarrow> False | JBool b \<Rightarrow> b | JNum n \<Rightarrow> n \<noteq> 0 | JStr s \<Rightarrow> s \<noteq> []
      | JArr _ \<Rightarrow> True | JObj _ \<Rightarrow> True)"

text \<open>Lines 228-240: the candidate that the response names, or the random choice. A title
  that is truthy and no string has no \<^verbatim>\<open>toLowerCase\<close>: the callback of \<^verbatim>\<open>find\<close> throws at
  the first candidate.\<close>

definition matchResult :: "random_value \<Rightarrow> show_record list \<Rightarrow> json \<Rightarrow> error + show_record option" where
  "matchResult r candidates result =
     (if truthy result \<and> (case getProp result ''title'' of None \<Rightarrow> False | Some t \<Rightarrow> truthy t)
      then
        (case getProp result ''title'' of
           Some (JStr t) \<Rightarrow>
             (case find (\<lambda>sh. toLowerCase (title sh) = toLowerCase t) candidates of
                Some selectedShow \<Rightarrow> Inr (Some selectedShow)
              | None \<Rightarrow> Inr (selectRandom r candidates))
         | _ \<Rightarrow> if candidates = [] then Inr (selectRandom r candidates) else Inl TypeError)
      else Inr (selectRandom r candidates))"

text \<open>The body of the \<^verbatim>\<open>try\<close>, lines 197-240: what it returns or throws, when the awaited
  call settles, and the requests sent.\<close>

definition selectWithAI_try ::
  "ai_config \<Rightarrow> environment \<Rightarrow> show_record list \<Rightarrow> show_record list
     \<Rightarrow> (error + show_record option) settling \<times> request list" where
  "selectWithAI_try cfg env candidates limitedCandidates =
     (let prompt = buildPrompt limitedCandidates
      in if blobSize prompt > maxPayloadBytes cfg
         then (Settles (Inr (selectRandom (random env) candidates)), [])
         else if provider cfg = ''hf'' then
           (if hf_key cfg = [] \<or> hf_key cfg = ''PUT_KEY_HERE''
            then (Settles (Inl (Error ''Hugging Face API key not configured'')), [])
            else (case fetchHuggingFace cfg env prompt of
                    (NeverSettles, sent) \<Rightarrow> (NeverSettles, sent)
                  | (Settles (Inl e), sent) \<Rightarrow> (Settles (Inl e), sent)
                  | (Settles (Inr result), sent) \<Rightarrow>
                      (Settles (matchResult (random env) candidates result), sent)))
         else (Settles (Inl (Error (''Unsupported AI provider: '' @ provider cfg))), []))"

text \<open>\<^verbatim>\<open>selectWithAI(candidates)\<close>, lines 187-249: the show it resolves to (\<open>None\<close> for the
  empty result), when it settles, and the requests sent. The \<^verbatim>\<open>catch\<close> turns every error
  of the body into the random choice.\<close>

definition selectWithAI ::
  "ai_config \<Rightarrow> environment \<Rightarrow> show_record list
     \<Rightarrow> show_record option settling \<times> request list" where
  "selectWithAI cfg env candidates =
     (if aiToggle env \<noteq> Some True then (Settles (selectRandom (random env) candidates), [])
      else
        let limitedCandidates = take (maxCandidates cfg) candidates
        in (case selectWithAI_try cfg env candidates limitedCandidates of
              (NeverSettles, sent) \<Rightarrow> (NeverSettles, sent)
            | (Settles (Inl e), sent) \<Rightarrow> (Settles (selectRandom (random env) candidates), sent)
            | (Settles (Inr selected), sent) \<Rightarrow> (Settles selected, sent)))"

subsection \<open>Conditions of the assisted path\<close>

text \<open>The prompt that \<^verbatim>\<open>selectWithAI\<close> builds, and the condition under which it calls
  \<^verbatim>\<open>fetchHuggingFace\<close>: the toggle is checked, the prompt is not larger than the ceiling, the
  provider is \<open>hf\<close> and a key is configured.\<close>

definition aiPrompt :: "ai_config \<Rightarrow> show_record list \<Rightarrow> string" where
  "aiPrompt cfg candidates = buildPrompt (take (maxCandidates cfg) candidates)"

definition aiCallReached :: "ai_config \<Rightarrow> environment \<Rightarrow> show_record list \<Rightarrow> bool" where
  "aiCallReached cfg env candidates =
     (aiToggle env = Some True \<and> blobSize (aiPrompt cfg candidates) \<le> maxPayloadBytes cfg \<and>
      provider cfg = ''hf'' \<and> hf_key cfg \<noteq> [] \<and> hf_key cfg \<noteq> ''PUT_KEY_HERE'')"

text \<open>The comparison of line 231: the titles are equal once both are lower-cased.\<close>

definition titleMatches :: "string \<Rightarrow> show_record \<Rightarrow> bool" where
  "titleMatches t sh = (toLowerCase (title sh) = toLowerCase t)"

text \<open>The failures that the assisted path reports: a missing credential, a network error,
  a timeout before the response arrives, a status that is no success, a response that
  cannot be parsed, a title that matches no candidate.\<close>

definition noMatchingTitle :: "show_record list \<Rightarrow> json \<Rightarrow> bool" where
  "noMatchingTitle candidates result =
     (case getProp result ''title'' of
        Some (JStr t) \<Rightarrow> \<not> list_ex (titleMatches t) candidates
      | _ \<Rightarrow> True)"

definition aiFailure :: "ai_config \<Rightarrow> environment \<Rightarrow> show_record list \<Rightarrow> bool" where
  "aiFailure cfg env candidates =
     (hf_key cfg = [] \<or> hf_key cfg = ''PUT_KEY_HERE'' \<or>
      (case fetch env (hfRequest cfg (aiPrompt cfg candidates)) of
         FetchNetworkError \<Rightarrow> True
       | FetchAborted \<Rightarrow> True
       | FetchResponse st body \<Rightarrow>
           st < 200 \<or> 299 < st \<or>
           (case body of
              BodyStalled \<Rightarrow> False
            | BodyUnparseable \<Rightarrow> True
            | BodyJson data \<Rightarrow>
                (case extractJson env data of
                   Inl e \<Rightarrow> True
                 | Inr result \<Rightarrow> noMatchingTitle candidates result))))"

text \<open>The first top-level brace-delimited span of a text, in the specification's words:
  from the first opening brace to the closing brace that balances it.\<close>

fun close_span :: "nat \<Rightarrow> string \<Rightarrow> string option" where
  "close_span depth [] = None"
| "close_span depth (c # cs) =
     (if c = CHR ''}'' then
        (if depth = 0 then Some [c] else map_option ((#) c) (close_span (depth - 1) cs))
      else if c = CHR ''{'' then map_option ((#) c) (close_span (Suc depth) cs)
      else map_option ((#) c) (close_span depth cs))"

fun first_top_level_span :: "string \<Rightarrow> string option" where
  "first_top_level_span [] = None"
| "first_top_level_span (c # cs) =
     (if c = CHR ''{'' then map_option ((#) c) (close_span 0 cs) else first_top_level_span cs)"

text \<open>Examples for the assisted path: two values of \<^verbatim>\<open>JSON.parse\<close>, a successful response
  with a given text, an environment with the toggle checked, a configuration with a key,
  and a show whose prompt has exactly 8000 bytes.\<close>

definition exampleParse :: "string \<Rightarrow> json option" where
  \<open>exampleParse s =
     (if s = ''{"title":"b"}'' then Some (JObj [(''title'', JStr ''b'')])
      else if s = ''{"title":""}'' then Some (JObj [(''title'', JStr [])])
      else None)\<close>

definition hfResponse :: "string \<Rightarrow> fetch_result" where
  "hfResponse text = FetchResponse 200 (BodyJson (JArr [JObj [(''generated_text'', JStr text)]]))"

definition exampleEnv :: "fetch_result \<Rightarrow> random_value \<Rightarrow> environment" where
  "exampleEnv outcome r =
     \<lparr>aiToggle = Some True, fetch = (\<lambda>req. outcome), JSON_parse = exampleParse, random = r\<rparr>"

definition configured :: ai_config where
  "configured = AI_CONFIG\<lparr>hf_key := ''hf_example_key''\<rparr>"

definition longTitleShow :: show_record where
  "longTitleShow = mkShow (replicate 7810 (CHR ''a'')) TagsAbsent None"

definition exampleX :: show_record where
  "exampleX = mkShow ''x'' TagsAbsent None"

definition exampleUntitled :: show_record where
  "exampleUntitled = mkShow [] TagsAbsent None"

subsection \<open>Presenter\<close>

text \<open>\<^verbatim>\<open>s.replace(/c/g, r)\<close> for a single code unit \<open>c\<close>.\<close>

definition replaceAll :: "char \<Rightarrow> string \<Rightarrow> string \<Rightarrow> string" where
  "replaceAll c r s = concat (map (\<lambda>x. if x = c then r else [x]) s)"

text \<open>The \<^verbatim>\<open>escapeHtml\<close> that the file defines when the page has none, lines 427-437.\<close>

definition escapeHtml :: "string \<Rightarrow> string" where
  \<open>escapeHtml unsafe =
     (if unsafe = [] then []
      else replaceAll (CHR 0x27) ''&#039;''
            (replaceAll (CHR 0x22) ''&quot;''
              (replaceAll (CHR ''>'') ''&gt;''
                (replaceAll (CHR ''<'') ''&lt;''
                  (replaceAll (CHR ''&'') ''&amp;'' unsafe)))))\<close>

definition isBoundary :: "char \<Rightarrow> bool" where
  "isBoundary c = (c = CHR ''.'' \<or> c = CHR ''!'' \<or> c = CHR ''?'')"

text \<open>\<^verbatim>\<open>description.split(/[.!?]+/)\<close>: the pieces between the maximal runs of \<open>.\<close>, \<open>!\<close> and
  \<open>?\<close>; a run at either end leaves an empty piece there.\<close>

function splitSentences :: "string \<Rightarrow> string list" where
  "splitSentences [] = [[]]"
| "splitSentences (c # cs) =
     (if isBoundary c then [] # splitSentences (dropWhile isBoundary cs)
      else (case splitSentences cs of [] \<Rightarrow> [[c]] | p # ps \<Rightarrow> (c # p) # ps))"
  by pat_completeness auto
termination
  by (relation "measure length") (auto simp: length_dropWhile_le less_Suc_eq_le)

text \<open>\<^verbatim>\<open>Array.prototype.join\<close>.\<close>

fun joinWith :: "string \<Rightarrow> string list \<Rightarrow> string" where
  "joinWith sep [] = []"
| "joinWith sep [x] = x"
| "joinWith sep (x # y # ys) = x @ sep @ joinWith sep (y # ys)"

text \<open>Lines 313-317: the description that the card shows.\<close>

definition resultDescription :: "show_record \<Rightarrow> string" where
  "resultDescription sh =
     (let description = firstTruthy [description sh, notes sh, overview sh];
          sentences = splitSentences description
      in if length sentences > 2 then joinWith ''.'' (take 2 sentences) @ ''.'' else description)"

text \<open>The template of lines 322-327, with the poster when there is one.\<close>

definition cardHtml :: "string \<Rightarrow> string \<Rightarrow> string \<Rightarrow> string \<Rightarrow> string" where
  \<open>cardHtml poster rawTitle titleHtml descriptionHtml =
     ''\<newline>    '' @
     (if poster \<noteq> []
      then ''<img src="'' @ poster @ ''" alt="'' @ rawTitle @ ''" class="result-poster">''
      else []) @
     ''\<newline>    <h3 class="result-title">'' @ titleHtml @ ''</h3>'' @
     ''\<newline>    <p class="result-description">'' @ descriptionHtml @ ''</p>'' @
     ''\<newline>    <button id="open-detail-btn" class="btn-primary">View Details</button>\<newline>  ''\<close>

text \<open>What \<^verbatim>\<open>showResult\<close> changes of the page: the content of the result panel, and whether
  the result panel and the empty-state panel carry the class \<open>hidden\<close>.\<close>

record page =
  resultHtml :: string
  resultHidden :: bool
  noResultsHidden :: bool

text \<open>\<^verbatim>\<open>showResult(show)\<close>, lines 302-343.\<close>

definition showResult :: "show_record option \<Rightarrow> page \<Rightarrow> page" where
  "showResult selected pg =
     (case selected of
        None \<Rightarrow> pg\<lparr>resultHidden := True, noResultsHidden := False\<rparr>
      | Some sh \<Rightarrow>
          pg\<lparr>resultHtml :=
               cardHtml (firstTruthy [posterDataUrl sh, posterUrl sh]) (title sh)
                 (escapeHtml (title sh)) (escapeHtml (resultDescription sh)),
             resultHidden := False, noResultsHidden := True\<rparr>)"

text \<open>For the statement of the claim on the presenter: the text that escaped text stands
  for, with the five entities read back.\<close>

fun unescapeHtml :: "string \<Rightarrow> string" where
  \<open>unescapeHtml [] = []\<close>
| \<open>unescapeHtml (c # cs) =
     (if c = CHR ''&'' then
        (if prefix ''amp;'' cs then CHR ''&'' # unescapeHtml (drop 4 cs)
         else if prefix ''lt;'' cs then CHR ''<'' # unescapeHtml (drop 3 cs)
         else if prefix ''gt;'' cs then CHR ''>'' # unescapeHtml (drop 3 cs)
         else if prefix ''quot;'' cs then CHR 0x22 # unescapeHtml (drop 5 cs)
         else if prefix ''#039;'' cs then CHR 0x27 # unescapeHtml (drop 5 cs)
         else c # unescapeHtml cs)
      else c # unescapeHtml cs)\<close>

definition describedShow :: "string \<Rightarrow> show_record" where
  "describedShow d = (mkShow ''<b>Tom & Jerry</b>'' TagsAbsent None)\<lparr>description := Some d\<rparr>"

definition posterShow :: show_record where
  "posterShow = (describedShow ''Hi! There?'')\<lparr>posterUrl := Some ''p.png''\<rparr>"

text \<open>What the five replacements make of one code unit, and a page before a result is
  shown.\<close>

definition escapeChar :: "char \<Rightarrow> string" where
  \<open>escapeChar c =
     (if c = CHR ''&'' then ''&amp;''
      else if c = CHR ''<'' then ''&lt;''
      else if c = CHR ''>'' then ''&gt;''
      else if c = CHR 0x22 then ''&quot;''
      else if c = CHR 0x27 then ''&#039;''
      else [c])\<close>

definition pageBefore :: page where
  "pageBefore = \<lparr>resultHtml = [], resultHidden = True, noResultsHidden = True\<rparr>"

section \<open>Properties\<close>

subsection \<open>Random selection\<close>

lemma bitLength_Suc: "0 < a \<Longrightarrow> bitLength a = Suc (bitLength (a div 2))"
  by (subst bitLength.simps) simp

lemma bitLength_0: "bitLength 0 = 0"
  by (subst bitLength.simps) simp

lemma bitLength_bounds:
  "0 < a \<Longrightarrow> 2 ^ (bitLength a - 1) \<le> a \<and> a < 2 ^ bitLength a"
proof (induction a rule: less_induct)
  case (less a)
  show ?case
  proof (cases "a div 2 = 0")
    case True
    with less.prems have a: "a = Suc 0" by (simp add: div_eq_0_iff)
    have "bitLength (Suc 0) = Suc 0"
      by (simp add: bitLength_Suc bitLength_0)
    then show ?thesis unfolding a by simp
  next
    case False
    then have pos: "0 < a div 2" by simp
    have "a div 2 < a" using less.prems by simp
    from less.IH [OF this pos]
    have ih: "2 ^ (bitLength (a div 2) - 1) \<le> a div 2" "a div 2 < 2 ^ bitLength (a div 2)"
      by simp_all
    have b: "bitLength a = Suc (bitLength (a div 2))"
      using less.prems by (rule bitLength_Suc)
    obtain m where m: "bitLength (a div 2) = Suc m"
      using bitLength_Suc [OF pos] by simp
    have lo: "(2::nat) ^ (bitLength a - 1) \<le> a"
    proof -
      have "(2::nat) ^ (bitLength a - 1) = 2 * 2 ^ m" unfolding b m by simp
      also have "\<dots> \<le> 2 * (a div 2)" using ih(1) unfolding m by simp
      also have "\<dots> \<le> a" by simp
      finally show ?thesis .
    qed
    have hi: "a < 2 ^ bitLength a"
    proof -
      have "a < 2 * (a div 2) + 2" by arith
      also have "\<dots> \<le> 2 * 2 ^ bitLength (a div 2)" using ih(2) by simp
      also have "\<dots> = 2 ^ bitLength a" unfolding b by simp
      finally show ?thesis .
    qed
    from lo hi show ?thesis by (rule conjI)
  qed
qed

lemma bitLength_le:
  assumes "a < 2 ^ w"
  shows "bitLength a \<le> w"
proof (cases "a = 0")
  case True
  then show ?thesis by (simp add: bitLength_0)
next
  case False
  then have "(2::nat) ^ (bitLength a - 1) \<le> a" using bitLength_bounds [of a] by simp
  from this assms have "(2::nat) ^ (bitLength a - 1) < 2 ^ w" by (rule le_less_trans)
  then have "bitLength a - 1 < w" by (rule power_less_imp_less_exp [rotated]) simp
  then show ?thesis by simp
qed

lemma roundHalfEven_ge: "a div 2 ^ s \<le> roundHalfEven a s"
  by (simp add: roundHalfEven_def Let_def)

lemma roundHalfEven_upper: "2 * (roundHalfEven a s * 2 ^ s) \<le> 2 * a + 2 ^ s"
proof -
  define q where "q = a div 2 ^ s"
  define r where "r = a mod 2 ^ s"
  have a: "a = q * 2 ^ s + r" unfolding q_def r_def by (rule div_mult_mod_eq [symmetric])
  show ?thesis
  proof (cases "2 * r < 2 ^ s")
    case True
    then have "roundHalfEven a s = q"
      by (simp add: roundHalfEven_def Let_def q_def r_def)
    then show ?thesis unfolding a by simp
  next
    case False
    have "roundHalfEven a s \<le> q + 1"
      by (simp add: roundHalfEven_def Let_def q_def r_def)
    then have "roundHalfEven a s * 2 ^ s \<le> (q + 1) * 2 ^ s"
      by (rule mult_le_mono1)
    then have "2 * (roundHalfEven a s * 2 ^ s) \<le> 2 * (q * 2 ^ s) + 2 ^ s + 2 ^ s"
      by (simp add: algebra_simps)
    also have "\<dots> \<le> 2 * (q * 2 ^ s) + 2 * r + 2 ^ s" using False by simp
    also have "\<dots> = 2 * a + 2 ^ s" unfolding a by simp
    finally show ?thesis .
  qed
qed

lemma productNumerator_upper:
  "productNumerator d n * 2 ^ 53 \<le> mant d * n * (2 ^ 53 + 1)"
proof (cases "bitLength (mant d * n) \<le> 53")
  case True
  then show ?thesis by (simp add: productNumerator_def Let_def)
next
  case False
  define a where "a = mant d * n"
  define s where "s = bitLength a - 53"
  from False have b: "bitLength a = s + 53" by (simp add: s_def a_def)
  then have "0 < a" using bitLength_0 by (cases "a = 0") auto
  from bitLength_bounds [OF this] have "2 ^ (s + 52) \<le> a" unfolding b by (simp add: add.commute)
  then have low: "2 ^ s * 2 ^ 52 \<le> a" by (simp add: power_add)
  have N: "productNumerator d n = roundHalfEven a s * 2 ^ s"
    using False by (simp add: productNumerator_def Let_def a_def s_def)
  have "productNumerator d n * 2 ^ 53 = 2 * (roundHalfEven a s * 2 ^ s) * 2 ^ 52"
    unfolding N by simp
  also have "\<dots> \<le> (2 * a + 2 ^ s) * 2 ^ 52"
    by (rule mult_le_mono1) (rule roundHalfEven_upper)
  also have "\<dots> = a * 2 ^ 53 + 2 ^ s * 2 ^ 52" by (simp add: algebra_simps)
  also have "\<dots> \<le> a * 2 ^ 53 + a" using low by simp
  also have "\<dots> = a * (2 ^ 53 + 1)" by (simp add: algebra_simps)
  finally show ?thesis unfolding a_def .
qed

lemma productNumerator_lower:
  assumes "isRandomValue d" "n < 2 ^ 32" "k * 2 ^ expo d \<le> mant d * n"
  shows "k * 2 ^ expo d \<le> productNumerator d n"
proof (cases "bitLength (mant d * n) \<le> 53")
  case True
  with assms(3) show ?thesis by (simp add: productNumerator_def Let_def)
next
  case False
  define a where "a = mant d * n"
  define s where "s = bitLength a - 53"
  define j where "j = expo d"
  have N: "productNumerator d n = roundHalfEven a s * 2 ^ s"
    using False by (simp add: productNumerator_def Let_def a_def s_def)
  from assms(1) have m: "mant d < 2 ^ 53" and j: "53 \<le> j"
    by (simp_all add: isRandomValue_def j_def)
  have "a < 2 ^ 53 * 2 ^ 32"
    unfolding a_def using m assms(2) by (intro mult_strict_mono) simp_all
  then have "a < 2 ^ 85" by simp
  then have "bitLength a \<le> 85" by (rule bitLength_le)
  then have sj: "s \<le> j" using j by (simp add: s_def)
  then have split: "(2::nat) ^ j = 2 ^ (j - s) * 2 ^ s"
    by (simp add: power_add [symmetric])
  from assms(3) have "(k * 2 ^ (j - s)) * 2 ^ s \<le> a"
    unfolding a_def j_def [symmetric] split by (simp add: mult.assoc)
  then have "k * 2 ^ (j - s) \<le> a div 2 ^ s"
    by (simp add: less_eq_div_iff_mult_less_eq)
  also have "\<dots> \<le> roundHalfEven a s" by (rule roundHalfEven_ge)
  finally have "(k * 2 ^ (j - s)) * 2 ^ s \<le> roundHalfEven a s * 2 ^ s"
    by (rule mult_le_mono1)
  then show ?thesis
    unfolding N j_def [symmetric] split by (simp add: mult.assoc)
qed

lemma randomIndex_ge:
  assumes "isRandomValue d" "n < 2 ^ 32" "k * 2 ^ expo d \<le> mant d * n"
  shows "k \<le> randomIndex d n"
  using productNumerator_lower [OF assms]
  by (simp add: randomIndex_def less_eq_div_iff_mult_less_eq)

lemma randomIndex_le:
  assumes "mant d * n * (2 ^ 53 + 1) < (k + 1) * 2 ^ expo d * 2 ^ 53"
  shows "randomIndex d n \<le> k"
proof -
  have "productNumerator d n * 2 ^ 53 < ((k + 1) * 2 ^ expo d) * 2 ^ 53"
    using productNumerator_upper [of d n] assms by (rule le_less_trans)
  then have "productNumerator d n < (k + 1) * 2 ^ expo d" by simp
  then have "productNumerator d n div 2 ^ expo d < k + 1"
    by (rule less_mult_imp_div_less)
  then show ?thesis by (simp add: randomIndex_def)
qed

lemma randomIndex_upper_bound:
  assumes "isRandomValue d" "n < 2 ^ 32"
  shows "mant d * n < (randomIndex d n + 1) * 2 ^ expo d"
proof (rule ccontr)
  assume "\<not> mant d * n < (randomIndex d n + 1) * 2 ^ expo d"
  then have "(randomIndex d n + 1) * 2 ^ expo d \<le> mant d * n" by simp
  from randomIndex_ge [OF assms this] show False by simp
qed

lemma randomIndex_lower_bound:
  "randomIndex d n * 2 ^ expo d * 2 ^ 53 \<le> mant d * n * (2 ^ 53 + 1)"
proof -
  have "randomIndex d n * 2 ^ expo d \<le> productNumerator d n"
    by (simp add: randomIndex_def)
  then have "randomIndex d n * 2 ^ expo d * 2 ^ 53 \<le> productNumerator d n * 2 ^ 53"
    by (rule mult_le_mono1)
  also have "\<dots> \<le> mant d * n * (2 ^ 53 + 1)" by (rule productNumerator_upper)
  finally show ?thesis .
qed

lemma randomIndex_in_range:
  assumes "isRandomValue d" "0 < n"
  shows "randomIndex d n < n"
proof -
  from assms(1) have m: "mant d + 1 \<le> 2 ^ 53" and j: "53 \<le> expo d"
    by (simp_all add: isRandomValue_def)
  have "(mant d + 1) * (2 ^ 53 + 1) \<le> 2 ^ 53 * (2 ^ 53 + 1)"
    using m by (rule mult_le_mono1)
  then have "mant d * (2 ^ 53 + 1) + (2 ^ 53 + 1) \<le> 2 ^ 53 * 2 ^ 53 + 2 ^ 53"
    by (simp add: algebra_simps)
  then have "mant d * (2 ^ 53 + 1) < 2 ^ 53 * 2 ^ 53" by simp
  also have "(2::nat) ^ 53 * 2 ^ 53 \<le> 2 ^ expo d * 2 ^ 53"
    using j by (intro mult_le_mono1 power_increasing) simp_all
  finally have "n * (mant d * (2 ^ 53 + 1)) < n * (2 ^ expo d * 2 ^ 53)"
    using assms(2) by simp
  then have "mant d * n * (2 ^ 53 + 1) < ((n - 1) + 1) * 2 ^ expo d * 2 ^ 53"
    using assms(2) by (simp add: mult.assoc mult.left_commute mult.commute)
  from randomIndex_le [OF this] assms(2) show ?thesis by simp
qed


lemma of_nat_le_quotient:
  fixes a k c :: nat
  assumes "0 < c"
  shows "(of_nat k :: rat) \<le> of_nat a / of_nat c \<longleftrightarrow> k * c \<le> a"
proof -
  have "(of_nat k :: rat) \<le> of_nat a / of_nat c \<longleftrightarrow> (of_nat k :: rat) * of_nat c \<le> of_nat a"
    using assms by (simp add: pos_le_divide_eq)
  also have "\<dots> \<longleftrightarrow> (of_nat (k * c) :: rat) \<le> of_nat a" by simp
  also have "\<dots> \<longleftrightarrow> k * c \<le> a" by (rule of_nat_le_iff)
  finally show ?thesis .
qed

lemma quotient_less_of_nat:
  fixes a k c :: nat
  assumes "0 < c"
  shows "(of_nat a :: rat) / of_nat c < of_nat k + 1 \<longleftrightarrow> a < (k + 1) * c"
proof -
  have "(of_nat a :: rat) / of_nat c < of_nat k + 1 \<longleftrightarrow> (of_nat a :: rat) < (of_nat k + 1) * of_nat c"
    using assms by (simp add: pos_divide_less_eq)
  also have "\<dots> \<longleftrightarrow> (of_nat a :: rat) < of_nat ((k + 1) * c)"
    by (simp only: of_nat_mult of_nat_add of_nat_1)
  also have "\<dots> \<longleftrightarrow> a < (k + 1) * c" by (rule of_nat_less_iff)
  finally show ?thesis .
qed

lemma valueOf_times: "valueOf d * of_nat n = of_nat (mant d * n) / of_nat (2 ^ expo d)"
  by (simp add: valueOf_def)

lemma valueOf_times_rounded:
  "valueOf d * of_nat n * (1 + 1 / 2 ^ 53)
     = of_nat (mant d * n * (2 ^ 53 + 1)) / of_nat (2 ^ expo d * 2 ^ 53)"
proof -
  define p :: nat where "p = 2 ^ 53"
  have p: "0 < p" by (simp add: p_def)
  have tol: "(1 + 1 / 2 ^ 53 :: rat) = of_nat (p + 1) / of_nat p"
    unfolding p_def by simp
  have "valueOf d * of_nat n * (of_nat (p + 1) / of_nat p)
      = of_nat (mant d * n * (p + 1)) / of_nat (2 ^ expo d * p)"
    unfolding valueOf_times by (simp only: times_divide_times_eq of_nat_mult)
  then show ?thesis
    unfolding tol [symmetric] unfolding p_def .
qed

lemma of_nat_le_valueOf_times:
  "of_nat k \<le> valueOf d * of_nat n \<longleftrightarrow> k * 2 ^ expo d \<le> mant d * n"
  unfolding valueOf_times by (rule of_nat_le_quotient) simp

lemma valueOf_times_less:
  "valueOf d * of_nat n < of_nat k + 1 \<longleftrightarrow> mant d * n < (k + 1) * 2 ^ expo d"
  unfolding valueOf_times by (rule quotient_less_of_nat) simp

lemma of_nat_le_valueOf_rounded:
  "of_nat k \<le> valueOf d * of_nat n * (1 + 1 / 2 ^ 53) \<longleftrightarrow>
     k * 2 ^ expo d * 2 ^ 53 \<le> mant d * n * (2 ^ 53 + 1)"
proof -
  have "of_nat k \<le> valueOf d * of_nat n * (1 + 1 / 2 ^ 53) \<longleftrightarrow>
     k * (2 ^ expo d * 2 ^ 53) \<le> mant d * n * (2 ^ 53 + 1)"
    unfolding valueOf_times_rounded by (rule of_nat_le_quotient) simp
  then show ?thesis by (simp only: mult.assoc)
qed

lemma valueOf_rounded_less:
  "valueOf d * of_nat n * (1 + 1 / 2 ^ 53) < of_nat k + 1 \<longleftrightarrow>
     mant d * n * (2 ^ 53 + 1) < (k + 1) * 2 ^ expo d * 2 ^ 53"
proof -
  have "valueOf d * of_nat n * (1 + 1 / 2 ^ 53) < of_nat k + 1 \<longleftrightarrow>
     mant d * n * (2 ^ 53 + 1) < (k + 1) * (2 ^ expo d * 2 ^ 53)"
    unfolding valueOf_times_rounded by (rule quotient_less_of_nat) simp
  then show ?thesis by (simp only: mult.assoc)
qed

lemma randomIndex_zero: "randomIndex randomZero n = 0"
  by (simp add: randomIndex_def productNumerator_def randomZero_def bitLength_0)

lemma randomIndex_half_2: "randomIndex randomHalf 2 = 1"
  by (simp add: randomIndex_def productNumerator_def roundHalfEven_def randomHalf_def
      bitLength.simps Let_def)

lemma isRandomValue_examples:
  "isRandomValue randomZero" "isRandomValue randomHalf" "isRandomValue randomBelowTwoThirds"
  by (simp_all add: isRandomValue_def randomZero_def randomHalf_def randomBelowTwoThirds_def)

text \<open>
  Claim C8, as amended. Random selection on the empty candidate list returns the empty
  result (the function is total: there is no error value to return). On a non-empty list
  it returns the element at the index \<open>floor (fl (r * n))\<close>, which is an index of the
  list, where \<open>r\<close> is the value of \<^verbatim>\<open>Math.random()\<close>, \<open>n\<close> the length and \<open>fl\<close> the
  rounding of the binary64 product. The choice is uniform up to that rounding: the index
  \<open>k\<close> is drawn whenever \<open>k \<le> r * n\<close> and \<open>r * n * (1 + 1 / 2 ^ 53) < k + 1\<close>, and only when
  \<open>k \<le> r * n * (1 + 1 / 2 ^ 53)\<close> and \<open>r * n < k + 1\<close>.
\<close>

theorem selectRandom_empty_and_nearly_uniform:
  "selectRandom d ([] :: 'a list) = None \<and>
   (isRandomValue d \<and> candidates \<noteq> [] \<and> length candidates < 2 ^ 32 \<longrightarrow>
      randomIndex d (length candidates) < length candidates \<and>
      selectRandom d candidates = Some (candidates ! randomIndex d (length candidates))) \<and>
   (isRandomValue d \<and> n < 2 ^ 32 \<longrightarrow>
      (of_nat k \<le> valueOf d * of_nat n \<and>
       valueOf d * of_nat n * (1 + 1 / 2 ^ 53) < of_nat k + 1 \<longrightarrow> randomIndex d n = k) \<and>
      (randomIndex d n = k \<longrightarrow>
         of_nat k \<le> valueOf d * of_nat n * (1 + 1 / 2 ^ 53) \<and>
         valueOf d * of_nat n < of_nat k + 1))"
proof (intro conjI impI)
  show "selectRandom d ([] :: 'a list) = None"
    by (simp add: selectRandom_def)
next
  assume h: "isRandomValue d \<and> candidates \<noteq> [] \<and> length candidates < 2 ^ 32"
  then show r: "randomIndex d (length candidates) < length candidates"
    by (intro randomIndex_in_range) simp_all
  from h r show "selectRandom d candidates = Some (candidates ! randomIndex d (length candidates))"
    by (simp add: selectRandom_def Let_def)
next
  assume h: "isRandomValue d \<and> n < 2 ^ 32"
  assume "of_nat k \<le> valueOf d * of_nat n \<and>
       valueOf d * of_nat n * (1 + 1 / 2 ^ 53) < of_nat k + 1"
  then have lo: "k * 2 ^ expo d \<le> mant d * n"
    and hi: "mant d * n * (2 ^ 53 + 1) < (k + 1) * 2 ^ expo d * 2 ^ 53"
    by (simp_all only: of_nat_le_valueOf_times valueOf_rounded_less)
  from h lo have "k \<le> randomIndex d n" by (intro randomIndex_ge) simp_all
  moreover from hi have "randomIndex d n \<le> k" by (rule randomIndex_le)
  ultimately show "randomIndex d n = k" by simp
next
  assume h: "isRandomValue d \<and> n < 2 ^ 32" and k: "randomIndex d n = k"
  from randomIndex_lower_bound [of d n]
  show "of_nat k \<le> valueOf d * of_nat n * (1 + 1 / 2 ^ 53)"
    unfolding k of_nat_le_valueOf_rounded .
  from h have "mant d * n < (randomIndex d n + 1) * 2 ^ expo d"
    by (intro randomIndex_upper_bound) simp_all
  then show "valueOf d * of_nat n < of_nat k + 1"
    unfolding k valueOf_times_less .
qed


theorem selectRandom_empty_and_nearly_uniform_witness:
  "selectRandom randomHalf ([] :: nat list) = None \<and>
   selectRandom randomHalf [10, 20, 30 :: nat] = Some 20 \<and>
   randomIndex randomHalf 3 = 1"
proof -
  note inst = selectRandom_empty_and_nearly_uniform [of randomHalf "[10, 20, 30 :: nat]" 3 1]
  have len: "length [10, 20, 30 :: nat] = 3" by simp
  have ne: "[10, 20, 30 :: nat] \<noteq> []" by simp
  have small: "length [10, 20, 30 :: nat] < 2 ^ 32" "(3 :: nat) < 2 ^ 32" by simp_all
  have v: "valueOf randomHalf = 1 / 2"
    by (simp add: valueOf_def randomHalf_def)
  have range: "(of_nat 1 :: rat) \<le> valueOf randomHalf * of_nat 3 \<and>
      valueOf randomHalf * of_nat 3 * (1 + 1 / 2 ^ 53) < of_nat 1 + 1"
    unfolding v by simp
  have idx: "randomIndex randomHalf 3 = 1"
    using inst isRandomValue_examples(2) range small(2) by blast
  have "selectRandom randomHalf [10, 20, 30 :: nat]
      = Some ([10, 20, 30 :: nat] ! randomIndex randomHalf (length [10, 20, 30 :: nat]))"
    using inst isRandomValue_examples(2) ne small(1) by blast
  then have "selectRandom randomHalf [10, 20, 30 :: nat] = Some 20"
    unfolding len idx by simp
  moreover have "selectRandom randomHalf ([] :: nat list) = None"
    using inst by blast
  ultimately show ?thesis using idx by simp
qed

text \<open>
  Claim C8 as stated fails for the exactly uniform choice, in which the index 1 of three is
  drawn for every random number from one third up to two thirds: at 0.6666666666666666
  the product with 3 lies between 1 and 2 and rounds to 2, and the index 2 is drawn.
\<close>

theorem selectRandom_uniform_counterexample:
  "isRandomValue randomBelowTwoThirds \<and>
   1 \<le> valueOf randomBelowTwoThirds * 3 \<and> valueOf randomBelowTwoThirds * 3 < 2 \<and>
   randomIndex randomBelowTwoThirds 3 = 2 \<and>
   selectRandom randomBelowTwoThirds [10, 20, 30 :: nat] = Some 30"
proof -
  have idx: "randomIndex randomBelowTwoThirds 3 = 2"
    by (simp add: randomIndex_def productNumerator_def roundHalfEven_def
        randomBelowTwoThirds_def bitLength.simps Let_def)
  have len: "length [10, 20, 30 :: nat] = 3" by simp
  have "selectRandom randomBelowTwoThirds [10, 20, 30 :: nat] = Some 30"
    unfolding selectRandom_def len idx by simp
  moreover have "1 \<le> valueOf randomBelowTwoThirds * 3 \<and> valueOf randomBelowTwoThirds * 3 < 2"
    by (simp add: valueOf_def randomBelowTwoThirds_def)
  ultimately show ?thesis using idx isRandomValue_examples(3) by simp
qed

subsection \<open>Strings\<close>


lemma of_char_toLowerChar:
  assumes "isUpperCase c"
  shows "(of_char (toLowerChar c) :: nat) = of_char c + 32"
proof -
  from assms have "(of_char c :: nat) \<le> 222"
    unfolding isUpperCase_def Let_def by auto
  then have "((of_char c :: nat) + 32) mod 256 = of_char c + 32"
    by (intro mod_less) simp
  then show ?thesis
    using assms unfolding toLowerChar_def by (simp only: if_True of_char_of)
qed

lemma not_isUpperCase_toLowerChar: "\<not> isUpperCase (toLowerChar c)"
proof (cases "isUpperCase c")
  case True
  from of_char_toLowerChar [OF True] True show ?thesis
    unfolding isUpperCase_def [of "toLowerChar c"] Let_def
    unfolding isUpperCase_def [of c] Let_def by auto
next
  case False
  then show ?thesis by (simp add: toLowerChar_def)
qed

lemma toLowerChar_idem: "toLowerChar (toLowerChar c) = toLowerChar c"
  using not_isUpperCase_toLowerChar [of c] by (subst toLowerChar_def) simp

lemma toLowerCase_idem: "toLowerCase (toLowerCase s) = toLowerCase s"
  by (simp add: toLowerCase_def toLowerChar_idem)

lemma isWhiteSpace_toLowerChar: "isWhiteSpace (toLowerChar c) = isWhiteSpace c"
proof (cases "isUpperCase c")
  case True
  have "\<not> isWhiteSpace c"
    using True unfolding isUpperCase_def isWhiteSpace_def Let_def by auto
  moreover have "\<not> isWhiteSpace (toLowerChar c)"
    using of_char_toLowerChar [OF True] True
    unfolding isWhiteSpace_def isUpperCase_def [of c] Let_def by auto
  ultimately show ?thesis by simp
next
  case False
  then show ?thesis by (simp add: toLowerChar_def)
qed

lemma dropWhile_isWhiteSpace_toLowerCase:
  "dropWhile isWhiteSpace (toLowerCase s) = toLowerCase (dropWhile isWhiteSpace s)"
  by (induction s) (simp_all add: toLowerCase_def isWhiteSpace_toLowerChar)

lemma trim_toLowerCase: "trim (toLowerCase s) = toLowerCase (trim s)"
  unfolding trim_def
  by (simp add: dropWhile_isWhiteSpace_toLowerCase toLowerCase_def rev_map
      dropWhile_isWhiteSpace_toLowerCase [unfolded toLowerCase_def])

lemma dropWhile_rev_dropWhile:
  "dropWhile P (rev (dropWhile P (rev (dropWhile P s)))) = rev (dropWhile P (rev (dropWhile P s)))"
proof (cases "dropWhile P (rev (dropWhile P s)) = []")
  case True
  show ?thesis unfolding True by simp
next
  case False
  let ?u = "dropWhile P s"
  let ?v = "dropWhile P (rev ?u)"
  have une: "?u \<noteq> []"
  proof
    assume "?u = []"
    then have "?v = dropWhile P (rev [])" by (rule arg_cong)
    with False show False by (simp only: rev.simps dropWhile.simps)
  qed
  have "rev ?u = takeWhile P (rev ?u) @ ?v" by simp
  then have "last (rev ?u) = last ?v" using False by (metis last_appendR)
  then have "last ?v = hd ?u" using une by (simp add: last_rev)
  moreover have "\<not> P (hd ?u)" using une by (rule hd_dropWhile)
  ultimately have "\<not> P (hd (rev ?v))" using False by (simp add: hd_rev)
  then show ?thesis using False by (cases "rev ?v") auto
qed

lemma trim_idem: "trim (trim s) = trim s"
proof -
  let ?v = "dropWhile isWhiteSpace (rev (dropWhile isWhiteSpace s))"
  have "dropWhile isWhiteSpace ?v = ?v" by simp
  then show ?thesis
    unfolding trim_def by (simp add: dropWhile_rev_dropWhile)
qed

lemma trim_normalized: "trim (toLowerCase (trim s)) = toLowerCase (trim s)"
  by (simp add: trim_toLowerCase trim_idem)


subsection \<open>Tag extraction\<close>

lemma set_fold_set_add: "set (fold set_add xs acc) = set xs \<union> set acc"
  by (induction xs arbitrary: acc) (auto simp: set_add_def)

lemma distinct_fold_set_add: "distinct acc \<Longrightarrow> distinct (fold set_add xs acc)"
  by (induction xs arbitrary: acc) (auto simp: set_add_def)

lemma set_fold_tags:
  "set (fold (\<lambda>sh tagSet. fold set_add (normalizeTags (tags sh)) tagSet) xs acc)
     = (\<Union>sh \<in> set xs. set (normalizeTags (tags sh))) \<union> set acc"
  by (induction xs arbitrary: acc) (auto simp: set_fold_set_add)

lemma distinct_fold_tags:
  "distinct acc \<Longrightarrow>
   distinct (fold (\<lambda>sh tagSet. fold set_add (normalizeTags (tags sh)) tagSet) xs acc)"
  by (induction xs arbitrary: acc) (auto simp: distinct_fold_set_add)

lemma set_collectTags:
  "set (collectTags xs) = (\<Union>sh \<in> set xs. set (normalizeTags (tags sh)))"
  by (simp add: collectTags_def set_fold_tags)

lemma distinct_collectTags: "distinct (collectTags xs)"
  by (simp add: collectTags_def distinct_fold_tags)

lemma normalizeTags_normalized:
  assumes "t \<in> set (normalizeTags tg)"
  shows "trim t = t \<and> toLowerCase t = t"
proof -
  from assms obtain raw where "t = toLowerCase (trim raw)"
    by (cases tg) (auto simp: normalizeTags_def split: if_splits)
  then show ?thesis
    by (simp add: trim_normalized toLowerCase_idem)
qed

lemma collectTags_cong:
  assumes "list_all2 (\<lambda>a b. normalizeTags (tags a) = normalizeTags (tags b)) xs ys"
  shows "fold (\<lambda>sh tagSet. fold set_add (normalizeTags (tags sh)) tagSet) xs acc
       = fold (\<lambda>sh tagSet. fold set_add (normalizeTags (tags sh)) tagSet) ys acc"
  using assms by (induction xs ys arbitrary: acc rule: list_all2_induct) simp_all

lemma normalizeTags_sequenceForm:
  "tg \<noteq> TagsString [] \<Longrightarrow> normalizeTags (sequenceForm tg) = normalizeTags tg"
  by (cases tg) (simp_all add: sequenceForm_def normalizeTags_def)

lemma sameButTagForm_normalizeTags:
  assumes "sameButTagForm a b" "tags a \<noteq> TagsString []"
  shows "normalizeTags (tags a) = normalizeTags (tags b)"
  using assms by (auto simp: sameButTagForm_def normalizeTags_sequenceForm)

lemma in_normalizeTags_iff:
  "t \<in> set (normalizeTags tg) \<longleftrightarrow>
     (\<exists>xs x. tg = TagsArray xs \<and> x \<in> set xs \<and> t = toLowerCase (trim x)) \<or>
     (\<exists>s p. tg = TagsString s \<and> s \<noteq> [] \<and> p \<in> set (split_comma s) \<and> t = toLowerCase (trim p))"
  by (cases tg) (auto simp: normalizeTags_def)

lemma split_comma_not_Nil: "split_comma s \<noteq> []"
  by (induction s) (simp_all split: list.splits)

lemma joinWith_Cons_Cons: "joinWith sep ((c # p) # ps) = c # joinWith sep (p # ps)"
  by (cases ps) simp_all

lemma joinWith_split_comma: "joinWith '','' (split_comma s) = s"
proof (induction s)
  case Nil
  show ?case by simp
next
  case (Cons c cs)
  obtain p ps where sp: "split_comma cs = p # ps"
    using split_comma_not_Nil [of cs] by (cases "split_comma cs") auto
  show ?case
    using Cons.IH unfolding sp by (cases "c = CHR '',''") (simp_all add: sp joinWith_Cons_Cons)
qed

lemma split_comma_no_comma: "p \<in> set (split_comma s) \<Longrightarrow> CHR '','' \<notin> set p"
proof (induction s arbitrary: p)
  case Nil
  then show ?case by simp
next
  case (Cons c cs)
  obtain q qs where sp: "split_comma cs = q # qs"
    using split_comma_not_Nil [of cs] by (cases "split_comma cs") auto
  from Cons.IH [of q] sp have q: "CHR '','' \<notin> set q" by simp
  from Cons.IH sp have qs: "\<And>r. r \<in> set qs \<Longrightarrow> CHR '','' \<notin> set r" by simp
  from Cons.prems show ?case
    using q qs Cons.IH unfolding sp by (cases "c = CHR '',''") (auto simp: sp)
qed

lemma trim_fixed_ends:
  assumes "trim t = t" "t \<noteq> []"
  shows "\<not> isWhiteSpace (hd t) \<and> \<not> isWhiteSpace (last t)"
proof -
  let ?v = "dropWhile isWhiteSpace (rev (dropWhile isWhiteSpace t))"
  from assms have t: "t = rev ?v" by (simp add: trim_def)
  have ne: "?v \<noteq> []"
  proof
    assume "?v = []"
    then have "rev ?v = []" by (simp only: rev.simps)
    with t assms(2) show False by simp
  qed
  then have "\<not> isWhiteSpace (hd ?v)" by (rule hd_dropWhile)
  then have lst: "\<not> isWhiteSpace (last t)"
    using ne by (subst t) (simp add: last_rev)
  have "dropWhile isWhiteSpace (trim t) = trim t"
    unfolding trim_def by (rule dropWhile_rev_dropWhile)
  with assms have d: "dropWhile isWhiteSpace t = t" by simp
  from assms(2) have "dropWhile isWhiteSpace t \<noteq> []" by (simp add: d)
  then have "\<not> isWhiteSpace (hd (dropWhile isWhiteSpace t))" by (rule hd_dropWhile)
  with d lst show ?thesis by simp
qed

lemma toLowerCase_fixed_chars:
  assumes "toLowerCase t = t" "c \<in> set t"
  shows "\<not> isUpperCase c"
proof -
  from assms have "c \<in> set (map toLowerChar t)" by (simp add: toLowerCase_def)
  then obtain c' where "c = toLowerChar c'" by auto
  then show ?thesis by (simp add: not_isUpperCase_toLowerChar)
qed

lemma formChange_normalizeTags:
  assumes "sameButTagForm a b \<and> (b \<noteq> a \<longrightarrow> tags a \<noteq> TagsString [])"
  shows "normalizeTags (tags a) = normalizeTags (tags b)"
proof (cases "b = a")
  case True
  then show ?thesis by simp
next
  case False
  with assms show ?thesis by (intro sameButTagForm_normalizeTags) simp_all
qed

text \<open>
  Claim C4, as amended. The extracted tags are distinct and sorted (in the order of code
  units). A string is among them exactly when it is the trimmed, lower-cased form of an
  element of some show's sequence of tags, or of a piece between the commas of some show's
  non-empty string of tags; so it has no white space at either end and no upper-case
  letter, and shows with an absent or unrecognized tags field contribute no tags. The
  pieces of a string hold no comma and joined by commas give the string back. Two
  collections that are the same but for the form of some shows' tags (a comma-joined
  string in the first, the sequence of its pieces in the second) give the same tags,
  provided no show that changes form has the empty string as its tags.
\<close>

theorem extractUniqueTags_normalized:
  "distinct (uniqueTags (extractUniqueTags st)) \<and>
   sorted (uniqueTags (extractUniqueTags st)) \<and>
   (\<forall>t. t \<in> set (uniqueTags (extractUniqueTags st)) \<longleftrightarrow>
      (\<exists>sh \<in> set (allShows st).
         (\<exists>xs x. tags sh = TagsArray xs \<and> x \<in> set xs \<and> t = toLowerCase (trim x)) \<or>
         (\<exists>s p. tags sh = TagsString s \<and> s \<noteq> [] \<and> p \<in> set (split_comma s) \<and>
            t = toLowerCase (trim p)))) \<and>
   (\<forall>t \<in> set (uniqueTags (extractUniqueTags st)).
      (t = [] \<or> \<not> isWhiteSpace (hd t) \<and> \<not> isWhiteSpace (last t)) \<and>
      (\<forall>c \<in> set t. \<not> isUpperCase c)) \<and>
   ((\<forall>sh \<in> set (allShows st). tags sh = TagsAbsent \<or> tags sh = TagsOther) \<longrightarrow>
      uniqueTags (extractUniqueTags st) = []) \<and>
   (\<forall>s. split_comma s \<noteq> [] \<and> joinWith '','' (split_comma s) = s \<and>
      (\<forall>p \<in> set (split_comma s). CHR '','' \<notin> set p)) \<and>
   (list_all2 (\<lambda>a b. sameButTagForm a b \<and> (b \<noteq> a \<longrightarrow> tags a \<noteq> TagsString []))
      (allShows st) other \<longrightarrow>
      uniqueTags (extractUniqueTags (st\<lparr>allShows := other\<rparr>)) = uniqueTags (extractUniqueTags st))"
proof (intro conjI impI ballI allI)
  show "distinct (uniqueTags (extractUniqueTags st))"
    by (simp add: extractUniqueTags_def distinct_collectTags)
  show "sorted (uniqueTags (extractUniqueTags st))"
    by (simp add: extractUniqueTags_def)
  have set_eq: "set (uniqueTags (extractUniqueTags st)) = (\<Union>sh \<in> set (allShows st). set (normalizeTags (tags sh)))"
    by (simp add: extractUniqueTags_def set_collectTags)
  show "t \<in> set (uniqueTags (extractUniqueTags st)) \<longleftrightarrow>
      (\<exists>sh \<in> set (allShows st).
         (\<exists>xs x. tags sh = TagsArray xs \<and> x \<in> set xs \<and> t = toLowerCase (trim x)) \<or>
         (\<exists>s p. tags sh = TagsString s \<and> s \<noteq> [] \<and> p \<in> set (split_comma s) \<and>
            t = toLowerCase (trim p)))" for t
    unfolding set_eq UN_iff in_normalizeTags_iff ..
  show "split_comma s \<noteq> []" for s by (rule split_comma_not_Nil)
  show "joinWith '','' (split_comma s) = s" for s by (rule joinWith_split_comma)
  show "CHR '','' \<notin> set p" if "p \<in> set (split_comma s)" for s p
    using that by (rule split_comma_no_comma)
  {
    fix t assume "t \<in> set (uniqueTags (extractUniqueTags st))"
    then obtain sh :: show_record where "t \<in> set (normalizeTags (tags sh))"
      unfolding set_eq by blast
    then have n: "trim t = t \<and> toLowerCase t = t" by (rule normalizeTags_normalized)
    then show "t = [] \<or> \<not> isWhiteSpace (hd t) \<and> \<not> isWhiteSpace (last t)"
      using trim_fixed_ends [of t] by blast
    fix c assume "c \<in> set t"
    with n show "\<not> isUpperCase c" using toLowerCase_fixed_chars [of t c] by blast
  }
  {
    assume "\<forall>sh \<in> set (allShows st). tags sh = TagsAbsent \<or> tags sh = TagsOther"
    then have "\<forall>sh \<in> set (allShows st). normalizeTags (tags sh) = []"
      by (auto simp: normalizeTags_def)
    then have "set (uniqueTags (extractUniqueTags st)) = {}"
      unfolding set_eq by simp
    then show "uniqueTags (extractUniqueTags st) = []" by simp
  }
  assume "list_all2 (\<lambda>a b. sameButTagForm a b \<and> (b \<noteq> a \<longrightarrow> tags a \<noteq> TagsString []))
      (allShows st) other"
  then have "list_all2 (\<lambda>a b. normalizeTags (tags a) = normalizeTags (tags b)) (allShows st) other"
    by (rule list_all2_mono) (rule formChange_normalizeTags)
  then have "collectTags other = collectTags (allShows st)"
    unfolding collectTags_def by (rule collectTags_cong [symmetric])
  then show "uniqueTags (extractUniqueTags (st\<lparr>allShows := other\<rparr>)) = uniqueTags (extractUniqueTags st)"
    by (simp add: extractUniqueTags_def)
qed


text \<open>
  Claim C4 as stated fails for the empty string of tags: the string is falsy and gives no
  tag, while the sequence of its pieces holds one empty string and gives the empty tag.
\<close>

theorem extractUniqueTags_counterexample:
  "list_all2 sameButTagForm [mkShow ''A'' (TagsString []) None] [mkShow ''A'' (TagsArray [[]]) None] \<and>
   uniqueTags (extractUniqueTags (mkState [mkShow ''A'' (TagsString []) None])) = [] \<and>
   uniqueTags (extractUniqueTags (mkState [mkShow ''A'' (TagsArray [[]]) None])) = [[]]"
  by (simp add: sameButTagForm_def sequenceForm_def mkShow_def mkState_def extractUniqueTags_def
      collectTags_def normalizeTags_def set_add_def trim_def toLowerCase_def)

theorem extractUniqueTags_normalized_witness:
  "uniqueTags (extractUniqueTags (mkState
        [mkShow ''A'' (TagsString ''x, Y'') (Some 1), mkShow ''B'' (TagsString []) (Some 2),
         mkShow ''C'' TagsOther None]))
      = [''x'', ''y''] \<and>
   uniqueTags (extractUniqueTags (mkState
        [mkShow ''A'' (TagsArray [''x'', '' Y'']) (Some 1), mkShow ''B'' (TagsString []) (Some 2),
         mkShow ''C'' TagsOther None]))
      = [''x'', ''y''] \<and>
   ''y'' = toLowerCase (trim '' Y'') \<and> \<not> isWhiteSpace (hd ''y'') \<and> \<not> isUpperCase (CHR ''y'') \<and>
   uniqueTags (extractUniqueTags (mkState [mkShow ''C'' TagsOther None, mkShow ''D'' TagsAbsent None])) = [] \<and>
   CHR '','' \<notin> set '' Y''"
proof -
  let ?A = "mkShow ''A'' (TagsString ''x, Y'') (Some 1)"
  let ?A' = "mkShow ''A'' (TagsArray [''x'', '' Y'']) (Some 1)"
  let ?B = "mkShow ''B'' (TagsString []) (Some 2)"
  let ?C = "mkShow ''C'' TagsOther None"
  let ?D = "mkShow ''D'' TagsAbsent None"
  note inst = extractUniqueTags_normalized [of "mkState [?A, ?B, ?C]" "[?A', ?B, ?C]"]
  have rel: "list_all2 (\<lambda>a b. sameButTagForm a b \<and> (b \<noteq> a \<longrightarrow> tags a \<noteq> TagsString []))
      (allShows (mkState [?A, ?B, ?C])) [?A', ?B, ?C]"
    by (simp add: sameButTagForm_def sequenceForm_def mkShow_def mkState_def)
  have upd: "(mkState [?A, ?B, ?C])\<lparr>allShows := [?A', ?B, ?C]\<rparr> = mkState [?A', ?B, ?C]"
    by (simp add: mkState_def)
  have eq: "uniqueTags (extractUniqueTags (mkState [?A', ?B, ?C]))
      = uniqueTags (extractUniqueTags (mkState [?A, ?B, ?C]))"
    using inst rel unfolding upd by blast
  have val: "uniqueTags (extractUniqueTags (mkState [?A, ?B, ?C])) = [''x'', ''y'']"
    by code_simp
  have sp: "split_comma ''x, Y'' = [''x'', '' Y'']" by simp
  have piece: "'' Y'' \<in> set (split_comma ''x, Y'')" unfolding sp by simp
  have y: "''y'' = toLowerCase (trim '' Y'')" by code_simp
  have mem: "''y'' \<in> set (uniqueTags (extractUniqueTags (mkState [?A, ?B, ?C])))"
    unfolding val by simp
  from inst mem have "(''y'' = [] \<or> \<not> isWhiteSpace (hd ''y'') \<and> \<not> isWhiteSpace (last ''y'')) \<and>
      (\<forall>c \<in> set ''y''. \<not> isUpperCase c)"
    by blast
  then have ends: "\<not> isWhiteSpace (hd ''y'')" and low: "\<not> isUpperCase (CHR ''y'')"
    by simp_all
  from inst piece have nc: "CHR '','' \<notin> set '' Y''" by blast
  have none: "\<forall>sh \<in> set (allShows (mkState [?C, ?D])). tags sh = TagsAbsent \<or> tags sh = TagsOther"
    by (simp add: mkShow_def mkState_def)
  have empty: "uniqueTags (extractUniqueTags (mkState [?C, ?D])) = []"
    using extractUniqueTags_normalized [of "mkState [?C, ?D]" "[]"] none by blast
  from eq val y ends low empty nc show ?thesis by simp
qed


subsection \<open>Filter engine\<close>





lemma set_insertBy: "set (insertBy cmp x ys) = insert x (set ys)"
  by (induction ys) auto

lemma set_sortBy: "set (sortBy cmp xs) = set xs"
  by (induction xs) (simp_all add: sortBy_def set_insertBy)



lemma insertBy_insort_key:
  fixes f :: "'a \<Rightarrow> int"
  assumes "\<forall>y \<in> set ys. cmp x y \<le> 0 \<longleftrightarrow> f x \<le> f y"
  shows "insertBy cmp x ys = insort_key f x ys"
  using assms by (induction ys) simp_all

lemma sortBy_sort_key:
  fixes f :: "'a \<Rightarrow> int"
  assumes "\<forall>x \<in> set xs. \<forall>y \<in> set xs. cmp x y \<le> 0 \<longleftrightarrow> f x \<le> f y"
  shows "sortBy cmp xs = sort_key f xs"
  using assms
proof (induction xs)
  case Nil
  then show ?case by (simp add: sortBy_def)
next
  case (Cons x xs)
  then have ih: "sortBy cmp xs = sort_key f xs" by simp
  have "insertBy cmp x (sort_key f xs) = insort_key f x (sort_key f xs)"
    using Cons.prems by (intro insertBy_insort_key) simp
  then show ?case
    using ih by (simp add: sortBy_def)
qed

lemma compareDates_valid:
  assumes "dateOf P a = Some ta" "dateOf P b = Some tb"
  shows "compareDates P a b \<le> 0 \<longleftrightarrow> tb \<le> ta"
  using assms by (simp add: compareDates_def)

lemma dateOf_sorted:
  assumes "\<forall>sh \<in> set (fst (applyFilters P inp st)). dateOf P sh \<noteq> None"
  shows "sorted_wrt (\<lambda>a b. \<exists>ta tb. dateOf P a = Some ta \<and> dateOf P b = Some tb \<and> tb \<le> ta)
           (fst (applyFilters P inp st))"
proof -
  define filtered where "filtered =
    filter (showMatches (categoryValue inp) (statusValue inp) (toLowerCase (searchValue inp))
      (selectedTagsOf st)) (allShows st)"
  define f where "f = (\<lambda>sh. - (case dateOf P sh of None \<Rightarrow> 0 | Some t \<Rightarrow> t))"
  have res: "fst (applyFilters P inp st) = sortBy (compareDates P) filtered"
    by (simp add: applyFilters_def Let_def filtered_def)
  from assms have valid: "\<And>sh. sh \<in> set filtered \<Longrightarrow> \<exists>t. dateOf P sh = Some t"
    unfolding res set_sortBy by auto
  have "compareDates P x y \<le> 0 \<longleftrightarrow> f x \<le> f y" if "x \<in> set filtered" "y \<in> set filtered" for x y
  proof -
    from valid [OF that(1)] valid [OF that(2)] obtain tx ty
      where "dateOf P x = Some tx" "dateOf P y = Some ty" by blast
    then show ?thesis by (simp add: compareDates_def f_def)
  qed
  then have "sortBy (compareDates P) filtered = sort_key f filtered"
    by (intro sortBy_sort_key) blast
  then have "sorted (map f (fst (applyFilters P inp st)))"
    unfolding res by simp
  then have srt: "sorted_wrt (\<lambda>a b. f a \<le> f b) (fst (applyFilters P inp st))"
    by (simp add: sorted_map)
  show ?thesis
  proof (rule sorted_wrt_mono_rel [OF _ srt])
    fix a b
    assume "a \<in> set (fst (applyFilters P inp st))" "b \<in> set (fst (applyFilters P inp st))"
      and le: "f a \<le> f b"
    with assms have "dateOf P a \<noteq> None" "dateOf P b \<noteq> None" by blast+
    then obtain ta tb where t: "dateOf P a = Some ta" "dateOf P b = Some tb" by blast
    with le have "tb \<le> ta" by (simp add: f_def)
    with t show "\<exists>ta tb. dateOf P a = Some ta \<and> dateOf P b = Some tb \<and> tb \<le> ta" by blast
  qed
qed

text \<open>
  Claim C2, as amended. When every show of the result has a valid date, the result of the
  filter engine is sorted non-increasing by the time of \<open>updatedAt\<close>, where a show with no
  \<open>updatedAt\<close> has the time 0 (the epoch); so a show with no \<open>updatedAt\<close> comes after every
  show of the result whose time is later than the epoch. The time of a number is the
  number itself when it is at most 8,640,000,000,000,000 away from 0 and invalid
  otherwise; the time of a string is what the parser of the language makes of it.
\<close>

theorem applyFilters_sorted_by_updatedAt:
  "((\<forall>sh \<in> set (fst (applyFilters P inp st)). dateOf P sh \<noteq> None) \<longrightarrow>
      sorted_wrt (\<lambda>a b. \<exists>ta tb. dateOf P a = Some ta \<and> dateOf P b = Some tb \<and> tb \<le> ta)
        (fst (applyFilters P inp st)) \<and>
      (\<forall>i j t. i < length (fst (applyFilters P inp st)) \<and> j < length (fst (applyFilters P inp st)) \<and>
         updatedAt (fst (applyFilters P inp st) ! i) = None \<and>
         dateOf P (fst (applyFilters P inp st) ! j) = Some t \<and> 0 < t \<longrightarrow> j < i)) \<and>
   (\<forall>sh. updatedAt sh = None \<longrightarrow> dateOf P sh = Some 0) \<and>
   (\<forall>sh t. updatedAt sh = Some (TimeNumber t) \<longrightarrow>
      dateOf P sh = (if - 8640000000000000 \<le> t \<and> t \<le> 8640000000000000 then Some t else None)) \<and>
   (\<forall>sh s. updatedAt sh = Some (TimeString s) \<and> s \<noteq> [] \<longrightarrow>
      dateOf P sh =
        (case P s of None \<Rightarrow> None
         | Some t \<Rightarrow> if - 8640000000000000 \<le> t \<and> t \<le> 8640000000000000 then Some t else None))"
proof (intro conjI allI impI)
  show "dateOf P sh = Some 0" if "updatedAt sh = None" for sh
    using that by (simp add: dateOf_def)
  show "dateOf P sh = (if - 8640000000000000 \<le> t \<and> t \<le> 8640000000000000 then Some t else None)"
    if "updatedAt sh = Some (TimeNumber t)" for sh t
    using that by (simp add: dateOf_def timeClip_def)
  show "dateOf P sh =
        (case P s of None \<Rightarrow> None
         | Some t \<Rightarrow> if - 8640000000000000 \<le> t \<and> t \<le> 8640000000000000 then Some t else None)"
    if "updatedAt sh = Some (TimeString s) \<and> s \<noteq> []" for sh s
    using that by (simp add: dateOf_def timeClip_def split: option.splits)
next
  assume valid: "\<forall>sh \<in> set (fst (applyFilters P inp st)). dateOf P sh \<noteq> None"
  then show "sorted_wrt (\<lambda>a b. \<exists>ta tb. dateOf P a = Some ta \<and> dateOf P b = Some tb \<and> tb \<le> ta)
        (fst (applyFilters P inp st))"
    by (rule dateOf_sorted)
next
  fix i j t
  let ?r = "fst (applyFilters P inp st)"
  assume valid: "\<forall>sh \<in> set ?r. dateOf P sh \<noteq> None"
  assume h: "i < length ?r \<and> j < length ?r \<and> updatedAt (?r ! i) = None \<and>
       dateOf P (?r ! j) = Some t \<and> 0 < t"
  then have di: "dateOf P (?r ! i) = Some 0" and dj: "dateOf P (?r ! j) = Some t"
    by (simp_all add: dateOf_def)
  note s = dateOf_sorted [OF valid]
  show "j < i"
  proof (rule ccontr)
    assume "\<not> j < i"
    moreover from di dj h have "i \<noteq> j" by auto
    ultimately have "i < j" by simp
    moreover from h have "j < length ?r" by simp
    ultimately have "\<exists>ta tb. dateOf P (?r ! i) = Some ta \<and> dateOf P (?r ! j) = Some tb \<and> tb \<le> ta"
      using s unfolding sorted_wrt_iff_nth_less by blast
    with di dj h show False by simp
  qed
qed

theorem applyFilters_sorted_by_updatedAt_witness:
  "fst (applyFilters noDateStrings noFilter (mkState [mkShow ''C'' TagsAbsent None, exampleA, exampleB]))
     = [exampleB, exampleA, mkShow ''C'' TagsAbsent None] \<and>
   sorted_wrt (\<lambda>a b. \<exists>ta tb. dateOf noDateStrings a = Some ta \<and>
        dateOf noDateStrings b = Some tb \<and> tb \<le> ta)
     (fst (applyFilters noDateStrings noFilter
        (mkState [mkShow ''C'' TagsAbsent None, exampleA, exampleB]))) \<and>
   (0 :: nat) < 2"
proof -
  let ?st = "mkState [mkShow ''C'' TagsAbsent None, exampleA, exampleB]"
  let ?r = "fst (applyFilters noDateStrings noFilter ?st)"
  have res: "?r = [exampleB, exampleA, mkShow ''C'' TagsAbsent None]"
    by code_simp
  have d: "dateOf noDateStrings exampleB = Some 2" "dateOf noDateStrings exampleA = Some 1"
    "dateOf noDateStrings (mkShow ''C'' TagsAbsent None) = Some 0"
    by (simp_all add: dateOf_def timeClip_def exampleA_def exampleB_def mkShow_def)
  have valid: "\<forall>sh \<in> set ?r. dateOf noDateStrings sh \<noteq> None"
    unfolding res using d by simp
  note inst = applyFilters_sorted_by_updatedAt [of noDateStrings noFilter ?st]
  have srt: "sorted_wrt (\<lambda>a b. \<exists>ta tb. dateOf noDateStrings a = Some ta \<and>
        dateOf noDateStrings b = Some tb \<and> tb \<le> ta) ?r"
    using inst valid by blast
  have hyp: "2 < length ?r \<and> 0 < length ?r \<and> updatedAt (?r ! 2) = None \<and>
      dateOf noDateStrings (?r ! 0) = Some 2 \<and> (0 :: int) < 2"
    unfolding res using d by (simp add: mkShow_def)
  have after: "(0 :: nat) < 2"
    using inst valid hyp by blast
  from res srt after show ?thesis by (intro conjI)
qed

text \<open>
  Claim C2 as stated fails for a time before the epoch: the show with no \<open>updatedAt\<close> has
  the time 0 and comes first. It fails for an invalid date too: with the number
  8,640,000,000,000,001 in the middle the comparator is not consistent, and the list
  stays as it was, the earlier time first.
\<close>

theorem applyFilters_missing_updatedAt_counterexample:
  "fst (applyFilters noDateStrings noFilter
      (mkState [mkShow ''D'' TagsAbsent (Some (- 1)), mkShow ''C'' TagsAbsent None]))
     = [mkShow ''C'' TagsAbsent None, mkShow ''D'' TagsAbsent (Some (- 1))] \<and>
   updatedAt (mkShow ''C'' TagsAbsent None) = None \<and>
   updatedAt (mkShow ''D'' TagsAbsent (Some (- 1))) = Some (TimeNumber (- 1)) \<and>
   dateOf noDateStrings (mkShow ''D'' TagsAbsent (Some (- 1))) = Some (- 1) \<and>
   fst (applyFilters noDateStrings noFilter
      (mkState [mkShow ''A'' TagsAbsent (Some 1), mkShow ''B'' TagsAbsent (Some 8640000000000001),
                mkShow ''C'' TagsAbsent None]))
     = [mkShow ''A'' TagsAbsent (Some 1), mkShow ''B'' TagsAbsent (Some 8640000000000001),
        mkShow ''C'' TagsAbsent None] \<and>
   dateOf noDateStrings (mkShow ''B'' TagsAbsent (Some 8640000000000001)) = None"
  by code_simp

subsection \<open>The regular expression\<close>

lemma star_then_close_None: "star_then_close cs = None \<longleftrightarrow> CHR ''}'' \<notin> set cs"
  by (induction cs) (auto split: option.splits)

lemma star_then_close_append:
  "CHR ''}'' \<notin> set post \<Longrightarrow> star_then_close (mid @ CHR ''}'' # post) = Some (mid @ [CHR ''}''])"
proof (induction mid)
  case Nil
  then have "star_then_close post = None" by (simp add: star_then_close_None)
  then show ?case by simp
next
  case (Cons c mid)
  then show ?case by simp
qed

lemma star_then_close_Some:
  "star_then_close cs = Some m \<Longrightarrow>
     \<exists>mid post. m = mid @ [CHR ''}''] \<and> cs = m @ post \<and> CHR ''}'' \<notin> set post"
proof (induction cs arbitrary: m)
  case Nil
  then show ?case by simp
next
  case (Cons c cs)
  show ?case
  proof (cases "star_then_close cs")
    case None
    with Cons.prems have "c = CHR ''}''" "m = [c]"
      by (auto split: if_splits)
    moreover from None have "CHR ''}'' \<notin> set cs"
      by (simp add: star_then_close_None)
    ultimately show ?thesis by auto
  next
    case (Some m')
    with Cons.prems have m: "m = c # m'" by simp
    from Cons.IH [OF Some] obtain mid post
      where "m' = mid @ [CHR ''}'']" "cs = m' @ post" "CHR ''}'' \<notin> set post"
      by blast
    with m have "m = (c # mid) @ [CHR ''}''] \<and> c # cs = m @ post \<and> CHR ''}'' \<notin> set post"
      by simp
    then show ?thesis by blast
  qed
qed

lemma regex_match_skip:
  "CHR ''{'' \<notin> set pre \<Longrightarrow> regex_match (pre @ s) = regex_match s"
  by (induction pre) auto

lemma regex_match_span:
  assumes "CHR ''{'' \<notin> set pre" "CHR ''}'' \<notin> set post"
  shows "regex_match (pre @ CHR ''{'' # mid @ CHR ''}'' # post) = Some (CHR ''{'' # mid @ [CHR ''}''])"
  using assms by (simp add: regex_match_skip star_then_close_append)

lemma regex_match_Some:
  "regex_match s = Some m \<Longrightarrow>
     \<exists>pre mid post. s = pre @ m @ post \<and> m = CHR ''{'' # mid @ [CHR ''}''] \<and>
        CHR ''{'' \<notin> set pre \<and> CHR ''}'' \<notin> set post"
proof (induction s)
  case Nil
  then show ?case by simp
next
  case (Cons c cs)
  show ?case
  proof (cases "c = CHR ''{'' \<and> star_then_close cs \<noteq> None")
    case True
    then obtain m' where m': "star_then_close cs = Some m'" by auto
    with True Cons.prems have m: "m = c # m'" by simp
    from star_then_close_Some [OF m'] obtain mid post
      where "m' = mid @ [CHR ''}'']" "cs = m' @ post" "CHR ''}'' \<notin> set post"
      by blast
    with m True have "c # cs = [] @ m @ post \<and> m = CHR ''{'' # mid @ [CHR ''}''] \<and>
        CHR ''{'' \<notin> set [] \<and> CHR ''}'' \<notin> set post"
      by simp
    then show ?thesis by blast
  next
    case False
    with Cons.prems have rest: "regex_match cs = Some m"
      by (auto split: if_splits option.splits)
    from Cons.IH [OF rest] obtain pre mid post
      where d: "cs = pre @ m @ post" "m = CHR ''{'' # mid @ [CHR ''}'']"
        "CHR ''{'' \<notin> set pre" "CHR ''}'' \<notin> set post"
      by blast
    have "c \<noteq> CHR ''{''"
    proof
      assume c: "c = CHR ''{''"
      with False have "star_then_close cs = None" by simp
      then have "CHR ''}'' \<notin> set cs" by (simp add: star_then_close_None)
      with d show False by simp
    qed
    with d have "c # cs = (c # pre) @ m @ post \<and> m = CHR ''{'' # mid @ [CHR ''}''] \<and>
        CHR ''{'' \<notin> set (c # pre) \<and> CHR ''}'' \<notin> set post"
      by simp
    then show ?thesis by blast
  qed
qed

lemma regex_match_iff:
  "regex_match s = Some m \<longleftrightarrow>
     (\<exists>pre mid post. s = pre @ m @ post \<and> m = CHR ''{'' # mid @ [CHR ''}''] \<and>
        CHR ''{'' \<notin> set pre \<and> CHR ''}'' \<notin> set post)"
proof
  assume "regex_match s = Some m"
  then show "\<exists>pre mid post. s = pre @ m @ post \<and> m = CHR ''{'' # mid @ [CHR ''}''] \<and>
        CHR ''{'' \<notin> set pre \<and> CHR ''}'' \<notin> set post"
    by (rule regex_match_Some)
next
  assume "\<exists>pre mid post. s = pre @ m @ post \<and> m = CHR ''{'' # mid @ [CHR ''}''] \<and>
        CHR ''{'' \<notin> set pre \<and> CHR ''}'' \<notin> set post"
  then obtain pre mid post where "s = pre @ m @ post" "m = CHR ''{'' # mid @ [CHR ''}'']"
    "CHR ''{'' \<notin> set pre" "CHR ''}'' \<notin> set post" by blast
  then show "regex_match s = Some m"
    using regex_match_span [of pre post mid] by simp
qed

lemma regex_match_None_iff:
  "regex_match s = None \<longleftrightarrow> \<not> (\<exists>pre mid post. s = pre @ CHR ''{'' # mid @ CHR ''}'' # post)"
proof
  assume n: "regex_match s = None"
  show "\<not> (\<exists>pre mid post. s = pre @ CHR ''{'' # mid @ CHR ''}'' # post)"
  proof
    assume "\<exists>pre mid post. s = pre @ CHR ''{'' # mid @ CHR ''}'' # post"
    then obtain pre mid post where s: "s = pre @ CHR ''{'' # mid @ CHR ''}'' # post" by blast
    from n s show False
    proof (induction pre arbitrary: s)
      case Nil
      then show ?case
        by (auto simp: star_then_close_None split: option.splits)
    next
      case (Cons a pre)
      then show ?case
        by (auto simp: star_then_close_None split: option.splits if_splits)
    qed
  qed
next
  assume "\<not> (\<exists>pre mid post. s = pre @ CHR ''{'' # mid @ CHR ''}'' # post)"
  then show "regex_match s = None"
    using regex_match_Some [of s] by (cases "regex_match s") fastforce+
qed

subsection \<open>Assisted selection\<close>

lemma selectRandom_in_set: "selectRandom r candidates = Some c \<Longrightarrow> c \<in> set candidates"
  by (auto simp: selectRandom_def Let_def split: if_splits)

lemma selectRandom_Some:
  assumes "isRandomValue r" "candidates \<noteq> []"
  shows "\<exists>c \<in> set candidates. selectRandom r candidates = Some c"
proof -
  from assms have "randomIndex r (length candidates) < length candidates"
    by (intro randomIndex_in_range) simp_all
  then show ?thesis
    using assms(2) by (simp add: selectRandom_def Let_def)
qed

lemma find_in_set: "find P xs = Some x \<Longrightarrow> x \<in> set xs \<and> P x"
  by (induction xs) (auto split: if_splits)

lemma find_None_iff': "find P xs = None \<longleftrightarrow> \<not> (\<exists>x \<in> set xs. P x)"
  by (induction xs) auto

lemma selectWithAI_not_reached:
  "\<not> aiCallReached cfg env candidates \<Longrightarrow>
     selectWithAI cfg env candidates = (Settles (selectRandom (random env) candidates), [])"
  by (auto simp: selectWithAI_def selectWithAI_try_def aiCallReached_def aiPrompt_def Let_def)

lemma selectWithAI_reached:
  assumes "aiCallReached cfg env candidates"
  shows "selectWithAI cfg env candidates =
     (case fst (fetchHuggingFace cfg env (aiPrompt cfg candidates)) of
        NeverSettles \<Rightarrow> NeverSettles
      | Settles (Inl e) \<Rightarrow> Settles (selectRandom (random env) candidates)
      | Settles (Inr result) \<Rightarrow>
          Settles (case matchResult (random env) candidates result of
             Inl e \<Rightarrow> selectRandom (random env) candidates
           | Inr selected \<Rightarrow> selected),
      [hfRequest cfg (aiPrompt cfg candidates)])"
proof -
  have sent: "snd (fetchHuggingFace cfg env p) = [hfRequest cfg p]" for p
    by (simp add: fetchHuggingFace_def Let_def)
  obtain res where f: "fetchHuggingFace cfg env (aiPrompt cfg candidates)
      = (res, [hfRequest cfg (aiPrompt cfg candidates)])"
    using sent [of "aiPrompt cfg candidates"] by (cases "fetchHuggingFace cfg env (aiPrompt cfg candidates)") simp
  from assms have c: "aiToggle env = Some True" "\<not> blobSize (buildPrompt (take (maxCandidates cfg) candidates)) > maxPayloadBytes cfg"
     "provider cfg = ''hf''" "hf_key cfg \<noteq> []" "hf_key cfg \<noteq> ''PUT_KEY_HERE''"
    by (simp_all add: aiCallReached_def aiPrompt_def)
  show ?thesis
    unfolding selectWithAI_def selectWithAI_try_def Let_def
    using c f [unfolded aiPrompt_def]
    by (simp add: aiPrompt_def split: sum.splits settling.splits)
qed

lemma fetchHuggingFace_NeverSettles:
  "fst (fetchHuggingFace cfg env prompt) = NeverSettles \<longleftrightarrow>
     (\<exists>st. fetch env (hfRequest cfg prompt) = FetchResponse st BodyStalled \<and> 200 \<le> st \<and> st \<le> 299)"
  by (auto simp: fetchHuggingFace_def Let_def split: fetch_result.splits body_result.splits)

lemma selectWithAI_NeverSettles:
  "fst (selectWithAI cfg env candidates) = NeverSettles \<longleftrightarrow>
     aiCallReached cfg env candidates \<and>
     (\<exists>st. fetch env (hfRequest cfg (aiPrompt cfg candidates)) = FetchResponse st BodyStalled \<and>
        200 \<le> st \<and> st \<le> 299)"
proof (cases "aiCallReached cfg env candidates")
  case False
  then show ?thesis by (simp add: selectWithAI_not_reached)
next
  case True
  show ?thesis
    unfolding selectWithAI_reached [OF True] fetchHuggingFace_NeverSettles [symmetric]
    using True by (simp split: settling.splits sum.splits)
qed

lemma matchResult_string_title:
  assumes "getProp result ''title'' = Some (JStr t)" "t \<noteq> []"
  shows "matchResult r candidates result =
     Inr (case find (titleMatches t) candidates of
            Some selectedShow \<Rightarrow> Some selectedShow
          | None \<Rightarrow> selectRandom r candidates)"
proof -
  from assms(1) obtain kvs where "result = JObj kvs"
    by (cases result) (simp_all add: getProp_def)
  then have "truthy result" by (simp add: truthy_def)
  then show ?thesis
    using assms unfolding matchResult_def titleMatches_def [abs_def]
    by (simp add: truthy_def split: option.splits)
qed

lemma matchResult_other_title:
  assumes "\<not> (\<exists>t. getProp result ''title'' = Some (JStr t) \<and> t \<noteq> [])"
  shows "(case matchResult r candidates result of
             Inl e \<Rightarrow> selectRandom r candidates
           | Inr selected \<Rightarrow> selected) = selectRandom r candidates"
  using assms unfolding matchResult_def
  by (auto simp: truthy_def split: option.splits json.splits)

lemma selectWithAI_result_cases:
  "fst (selectWithAI cfg env candidates) = NeverSettles \<or>
   fst (selectWithAI cfg env candidates) = Settles (selectRandom (random env) candidates) \<or>
   (\<exists>t c. find (titleMatches t) candidates = Some c \<and>
      fst (selectWithAI cfg env candidates) = Settles (Some c))"
proof (cases "aiCallReached cfg env candidates")
  case False
  then show ?thesis by (simp add: selectWithAI_not_reached)
next
  case True
  note reached = selectWithAI_reached [OF True]
  show ?thesis
  proof (cases "fst (fetchHuggingFace cfg env (aiPrompt cfg candidates))")
    case NeverSettles
    with reached show ?thesis by simp
  next
    case (Settles res)
    show ?thesis
    proof (cases res)
      case (Inl e)
      with reached Settles show ?thesis by simp
    next
      case (Inr result)
      show ?thesis
      proof (cases "\<exists>t. getProp result ''title'' = Some (JStr t) \<and> t \<noteq> []")
        case False
        from matchResult_other_title [OF False, of "random env" candidates] reached Settles Inr
        show ?thesis by simp
      next
        case True
        then obtain t where t: "getProp result ''title'' = Some (JStr t)" "t \<noteq> []" by blast
        from matchResult_string_title [OF t, of "random env" candidates] reached Settles Inr
        show ?thesis by (cases "find (titleMatches t) candidates") auto
      qed
    qed
  qed
qed

lemma fetch_failure:
  assumes "aiFailure cfg env candidates" "aiCallReached cfg env candidates"
  shows "(\<exists>e. fst (fetchHuggingFace cfg env (aiPrompt cfg candidates)) = Settles (Inl e)) \<or>
         (\<exists>result. fst (fetchHuggingFace cfg env (aiPrompt cfg candidates)) = Settles (Inr result) \<and>
            noMatchingTitle candidates result)"
proof -
  from assms(2) have key: "hf_key cfg \<noteq> []" "hf_key cfg \<noteq> ''PUT_KEY_HERE''"
    by (simp_all add: aiCallReached_def)
  show ?thesis
  proof (cases "fetch env (hfRequest cfg (aiPrompt cfg candidates))")
    case FetchNetworkError
    then show ?thesis by (simp add: fetchHuggingFace_def Let_def)
  next
    case FetchAborted
    then show ?thesis by (simp add: fetchHuggingFace_def Let_def)
  next
    case (FetchResponse st body)
    with assms(1) key have f: "st < 200 \<or> 299 < st \<or>
           (case body of BodyStalled \<Rightarrow> False | BodyUnparseable \<Rightarrow> True
            | BodyJson data \<Rightarrow> (case extractJson env data of Inl e \<Rightarrow> True
                 | Inr result \<Rightarrow> noMatchingTitle candidates result))"
      by (simp add: aiFailure_def)
    show ?thesis
    proof (cases "st < 200 \<or> 299 < st")
      case True
      with FetchResponse show ?thesis by (auto simp: fetchHuggingFace_def Let_def)
    next
      case False
      with f FetchResponse show ?thesis
        by (auto simp: fetchHuggingFace_def Let_def split: body_result.splits sum.splits)
    qed
  qed
qed

lemma noMatchingTitle_random:
  assumes "noMatchingTitle candidates result"
  shows "(case matchResult r candidates result of
             Inl e \<Rightarrow> selectRandom r candidates
           | Inr selected \<Rightarrow> selected) = selectRandom r candidates"
proof (cases "\<exists>t. getProp result ''title'' = Some (JStr t) \<and> t \<noteq> []")
  case False
  then show ?thesis by (rule matchResult_other_title)
next
  case True
  then obtain t where t: "getProp result ''title'' = Some (JStr t)" "t \<noteq> []" by blast
  with assms have "\<not> (\<exists>c \<in> set candidates. titleMatches t c)"
    by (simp add: noMatchingTitle_def list_ex_iff)
  then have "find (titleMatches t) candidates = None"
    by (simp add: find_None_iff')
  with matchResult_string_title [OF t, of r candidates] show ?thesis by simp
qed

subsection \<open>Examples of the assisted path\<close>

lemma blobSize_append: "blobSize (xs @ ys) = blobSize xs + blobSize ys"
  by (simp add: blobSize_def)

lemma blobSize_replicate_a: "blobSize (replicate n (CHR ''a'')) = n"
  by (induction n) (simp_all add: blobSize_def)

lemma blobSize_promptHeader: "blobSize promptHeader = 184"
  by code_simp

lemma buildPrompt_single: "buildPrompt [sh] = promptHeader @ promptLine 0 sh"
  by (simp add: buildPrompt_def enumerate_simps)

lemma selectRandom_half: "selectRandom randomHalf [exampleA, exampleB] = Some exampleB"
proof -
  have len: "length [exampleA, exampleB] = 2" by simp
  show ?thesis
    unfolding selectRandom_def len randomIndex_half_2 by simp
qed

lemma selectRandom_zero: "selectRandom randomZero (x # xs) = Some x"
  by (simp add: selectRandom_def randomIndex_zero)

lemma reached_example:
  "aiCallReached configured (exampleEnv outcome r) [exampleA, exampleB]"
proof -
  have "blobSize (aiPrompt configured [exampleA, exampleB]) \<le> 8000"
    by code_simp
  then show ?thesis
    by (simp add: aiCallReached_def configured_def AI_CONFIG_def exampleEnv_def)
qed

lemma fetch_example_b:
  \<open>fst (fetchHuggingFace cfg (exampleEnv (hfResponse ''{"title":"b"}'') r) prompt)
     = Settles (Inr (JObj [(''title'', JStr ''b'')]))\<close>
proof -
  have \<open>regex_match ''{"title":"b"}'' = Some ''{"title":"b"}''\<close> by code_simp
  then show ?thesis
    by (simp add: fetchHuggingFace_def Let_def exampleEnv_def hfResponse_def extractJson_def
        index0_def optProp_def getProp_def optMatch_def exampleParse_def)
qed

lemma fetch_example_empty:
  \<open>fst (fetchHuggingFace cfg (exampleEnv (hfResponse ''{"title":""}'') r) prompt)
     = Settles (Inr (JObj [(''title'', JStr [])]))\<close>
proof -
  have \<open>regex_match ''{"title":""}'' = Some ''{"title":""}''\<close> by code_simp
  then show ?thesis
    by (simp add: fetchHuggingFace_def Let_def exampleEnv_def hfResponse_def extractJson_def
        index0_def optProp_def getProp_def optMatch_def exampleParse_def)
qed

lemma find_example_b: "find (titleMatches ''b'') [exampleA, exampleB] = Some exampleB"
  by code_simp

subsection \<open>The claims on the selector\<close>

text \<open>
  What holds of the failures that the assisted path reports: on each of them (a missing
  credential, a network error, a timeout before the response arrives, a status that is no
  success, a response that cannot be parsed, a title that matches no candidate)
  \<^verbatim>\<open>selectWithAI\<close> settles with what \<^verbatim>\<open>selectRandom\<close> returns on the same candidates. On a
  non-empty candidate list it settles with one of the candidates, unless the body of a
  successful response never finishes: then, and only then, it never settles.
\<close>

lemma selectWithAI_falls_back_when_settled:
  "(aiFailure cfg env candidates \<longrightarrow>
      fst (selectWithAI cfg env candidates) = Settles (selectRandom (random env) candidates)) \<and>
   (candidates \<noteq> [] \<and> isRandomValue (random env) \<and>
    fst (selectWithAI cfg env candidates) \<noteq> NeverSettles \<longrightarrow>
      (\<exists>c \<in> set candidates. fst (selectWithAI cfg env candidates) = Settles (Some c)))"
proof (intro conjI impI)
  assume fail: "aiFailure cfg env candidates"
  show "fst (selectWithAI cfg env candidates) = Settles (selectRandom (random env) candidates)"
  proof (cases "aiCallReached cfg env candidates")
    case False
    then show ?thesis by (simp add: selectWithAI_not_reached)
  next
    case True
    from fetch_failure [OF fail True] show ?thesis
    proof
      assume "\<exists>e. fst (fetchHuggingFace cfg env (aiPrompt cfg candidates)) = Settles (Inl e)"
      then show ?thesis using selectWithAI_reached [OF True] by auto
    next
      assume "\<exists>result. fst (fetchHuggingFace cfg env (aiPrompt cfg candidates)) = Settles (Inr result) \<and>
            noMatchingTitle candidates result"
      then obtain result
        where r: "fst (fetchHuggingFace cfg env (aiPrompt cfg candidates)) = Settles (Inr result)"
        and n: "noMatchingTitle candidates result" by blast
      from noMatchingTitle_random [OF n, of "random env"] r selectWithAI_reached [OF True]
      show ?thesis by simp
    qed
  qed
next
  assume h: "candidates \<noteq> [] \<and> isRandomValue (random env) \<and>
    fst (selectWithAI cfg env candidates) \<noteq> NeverSettles"
  then have rnd: "\<exists>c \<in> set candidates. selectRandom (random env) candidates = Some c"
    by (simp add: selectRandom_Some)
  from selectWithAI_result_cases [of cfg env candidates] h
  have "fst (selectWithAI cfg env candidates) = Settles (selectRandom (random env) candidates) \<or>
   (\<exists>t c. find (titleMatches t) candidates = Some c \<and>
      fst (selectWithAI cfg env candidates) = Settles (Some c))" by blast
  then show "\<exists>c \<in> set candidates. fst (selectWithAI cfg env candidates) = Settles (Some c)"
  proof
    assume "fst (selectWithAI cfg env candidates) = Settles (selectRandom (random env) candidates)"
    with rnd show ?thesis by auto
  next
    assume "\<exists>t c. find (titleMatches t) candidates = Some c \<and>
      fst (selectWithAI cfg env candidates) = Settles (Some c)"
    then show ?thesis by (auto dest: find_in_set)
  qed
qed

text \<open>
  Claim C3 holds of the failures above and fails, by a slip of the code, for the timeout
  of the body: the timer that aborts the request is cleared (line 270) before the body is
  read (line 276). With two candidates, a key and the toggle checked, a response of status
  200 whose body never finishes leaves \<^verbatim>\<open>selectWithAI\<close> unsettled: no random choice is
  made and no recommendation is shown. The sibling path, the timeout before the response
  arrives, falls back to the random choice as the claim says.
\<close>

theorem selectWithAI_stalled_body_never_settles:
  "aiCallReached configured (exampleEnv (FetchResponse 200 BodyStalled) randomHalf)
     [exampleA, exampleB] \<and>
   fst (selectWithAI configured (exampleEnv (FetchResponse 200 BodyStalled) randomHalf)
     [exampleA, exampleB]) = NeverSettles \<and>
   fst (selectWithAI configured (exampleEnv FetchAborted randomHalf) [exampleA, exampleB])
     = Settles (Some exampleB) \<and>
   selectRandom randomHalf [exampleA, exampleB] = Some exampleB"
proof -
  let ?stalled = "exampleEnv (FetchResponse 200 BodyStalled) randomHalf"
  let ?aborted = "exampleEnv FetchAborted randomHalf"
  have f: "fetch (exampleEnv outcome r) req = outcome" "random (exampleEnv outcome r) = r"
    for outcome r req
    by (simp_all add: exampleEnv_def)
  have "fst (fetchHuggingFace configured ?stalled (aiPrompt configured [exampleA, exampleB]))
      = NeverSettles"
    by (simp add: fetchHuggingFace_def Let_def f)
  then have stalled: "fst (selectWithAI configured ?stalled [exampleA, exampleB]) = NeverSettles"
    by (simp add: selectWithAI_reached [OF reached_example])
  have "fst (fetchHuggingFace configured ?aborted (aiPrompt configured [exampleA, exampleB]))
      = Settles (Inl (Error ''AI request timeout''))"
    by (simp add: fetchHuggingFace_def Let_def f)
  then have "fst (selectWithAI configured ?aborted [exampleA, exampleB])
      = Settles (selectRandom randomHalf [exampleA, exampleB])"
    by (simp add: selectWithAI_reached [OF reached_example] f)
  then have aborted: "fst (selectWithAI configured ?aborted [exampleA, exampleB])
      = Settles (Some exampleB)"
    by (simp only: selectRandom_half)
  from reached_example stalled aborted selectRandom_half show ?thesis
    by (intro conjI)
qed

text \<open>
  Claim C5, as amended. The prompt is built from the candidates truncated to the
  configured maximum count. When the toggle is checked and the prompt is larger than the
  ceiling, \<^verbatim>\<open>selectWithAI\<close> returns the random choice and sends no request. Every request
  it sends carries that prompt, and is sent only when the prompt is not larger than the
  ceiling; when the call is reached it sends exactly one.
\<close>

theorem selectWithAI_payload_gate:
  "(aiToggle env = Some True \<and> maxPayloadBytes cfg < blobSize (aiPrompt cfg candidates) \<longrightarrow>
      selectWithAI cfg env candidates = (Settles (selectRandom (random env) candidates), [])) \<and>
   (\<forall>req \<in> set (snd (selectWithAI cfg env candidates)).
      req = hfRequest cfg (aiPrompt cfg candidates) \<and>
      blobSize (aiPrompt cfg candidates) \<le> maxPayloadBytes cfg) \<and>
   (aiCallReached cfg env candidates \<longrightarrow>
      snd (selectWithAI cfg env candidates) = [hfRequest cfg (aiPrompt cfg candidates)]) \<and>
   aiPrompt cfg candidates = buildPrompt (take (maxCandidates cfg) candidates)"
proof (intro conjI impI ballI)
  assume "aiToggle env = Some True \<and> maxPayloadBytes cfg < blobSize (aiPrompt cfg candidates)"
  then have "\<not> aiCallReached cfg env candidates" by (simp add: aiCallReached_def)
  then show "selectWithAI cfg env candidates = (Settles (selectRandom (random env) candidates), [])"
    by (rule selectWithAI_not_reached)
next
  assume "aiCallReached cfg env candidates"
  then show "snd (selectWithAI cfg env candidates) = [hfRequest cfg (aiPrompt cfg candidates)]"
    by (simp add: selectWithAI_reached)
next
  show "aiPrompt cfg candidates = buildPrompt (take (maxCandidates cfg) candidates)"
    by (simp add: aiPrompt_def)
next
  fix req assume req: "req \<in> set (snd (selectWithAI cfg env candidates))"
  have reached: "aiCallReached cfg env candidates"
  proof (rule ccontr)
    assume "\<not> aiCallReached cfg env candidates"
    then have "snd (selectWithAI cfg env candidates) = []"
      by (simp add: selectWithAI_not_reached)
    with req show False by simp
  qed
  with req show "req = hfRequest cfg (aiPrompt cfg candidates)"
    by (simp add: selectWithAI_reached)
  from reached show "blobSize (aiPrompt cfg candidates) \<le> maxPayloadBytes cfg"
    by (simp add: aiCallReached_def)
qed

theorem selectWithAI_payload_gate_witness:
  "selectWithAI (configured\<lparr>maxPayloadBytes := 100\<rparr>) (exampleEnv (hfResponse []) randomHalf) [exampleA, exampleB]
     = (Settles (Some exampleB), []) \<and>
   snd (selectWithAI configured (exampleEnv (hfResponse []) randomHalf) [exampleA, exampleB])
     = [hfRequest configured (buildPrompt [exampleA, exampleB])]"
proof -
  let ?small = "configured\<lparr>maxPayloadBytes := 100\<rparr>"
  let ?env = "exampleEnv (hfResponse []) randomHalf"
  have big: "maxPayloadBytes ?small < blobSize (aiPrompt ?small [exampleA, exampleB])"
    by code_simp
  have tog: "aiToggle ?env = Some True" "random ?env = randomHalf"
    by (simp_all add: exampleEnv_def)
  have p: "aiPrompt configured [exampleA, exampleB] = buildPrompt [exampleA, exampleB]"
    by (simp add: aiPrompt_def configured_def AI_CONFIG_def)
  from selectWithAI_payload_gate [of ?env ?small "[exampleA, exampleB]"] big tog
  have "selectWithAI ?small ?env [exampleA, exampleB] = (Settles (selectRandom randomHalf [exampleA, exampleB]), [])"
    by simp
  moreover from selectWithAI_payload_gate [of ?env configured "[exampleA, exampleB]"] reached_example
  have "snd (selectWithAI configured ?env [exampleA, exampleB])
     = [hfRequest configured (aiPrompt configured [exampleA, exampleB])]"
    by blast
  ultimately show ?thesis
    unfolding p selectRandom_half by simp
qed

text \<open>
  Claim C5 as stated fails at the ceiling itself: a prompt of exactly 8000 bytes is not
  under the ceiling of 8000, and the request is sent.
\<close>

theorem selectWithAI_payload_gate_counterexample:
  "blobSize (buildPrompt (take (maxCandidates configured) [longTitleShow])) = 8000 \<and>
   maxPayloadBytes configured = 8000 \<and>
   snd (selectWithAI configured (exampleEnv FetchAborted randomZero) [longTitleShow])
     = [hfRequest configured (buildPrompt [longTitleShow])]"
proof -
  have one: "show_nat (Suc 0) = ''1''" by code_simp
  have p: "aiPrompt configured [longTitleShow] = buildPrompt [longTitleShow]"
    by (simp add: aiPrompt_def configured_def AI_CONFIG_def)
  have t: "take (maxCandidates configured) [longTitleShow] = [longTitleShow]"
    by (simp add: configured_def AI_CONFIG_def)
  have line: "promptLine 0 longTitleShow = ''1. '' @ replicate 7810 (CHR ''a'') @ '': \<newline>''"
    by (simp add: promptLine_def shortDescription_def longTitleShow_def mkShow_def one)
  have "blobSize (''1. '' @ replicate 7810 (CHR ''a'') @ '': \<newline>'') = 3 + 7810 + 3"
    unfolding blobSize_append blobSize_replicate_a by (simp add: blobSize_def)
  then have size: "blobSize (buildPrompt [longTitleShow]) = 8000"
    unfolding buildPrompt_single blobSize_append blobSize_promptHeader line by simp
  have m: "maxPayloadBytes configured = 8000"
    by (simp add: configured_def AI_CONFIG_def)
  have "aiCallReached configured (exampleEnv FetchAborted randomZero) [longTitleShow]"
    unfolding aiCallReached_def p size m
    by (simp add: configured_def AI_CONFIG_def exampleEnv_def)
  then have "snd (selectWithAI configured (exampleEnv FetchAborted randomZero) [longTitleShow])
     = [hfRequest configured (aiPrompt configured [longTitleShow])]"
    by (simp add: selectWithAI_reached)
  with size m show ?thesis unfolding p t by simp
qed

text \<open>
  Claim C6, as amended. The extraction matches the span from the first opening brace of
  the text to the last closing brace after it, and there is no match exactly when no
  opening brace is followed by a closing one. That span, and nothing else, is given to
  \<^verbatim>\<open>JSON.parse\<close>; with no span, or when the parse fails, the call fails.
\<close>

theorem extractJson_first_to_last_brace:
  "(regex_match text = Some m \<longleftrightarrow>
      (\<exists>pre mid post. text = pre @ m @ post \<and> m = CHR ''{'' # mid @ [CHR ''}''] \<and>
         CHR ''{'' \<notin> set pre \<and> CHR ''}'' \<notin> set post)) \<and>
   (regex_match text = None \<longleftrightarrow>
      \<not> (\<exists>pre mid post. text = pre @ CHR ''{'' # mid @ CHR ''}'' # post)) \<and>
   (map_of kvs ''generated_text'' = Some (JStr text) \<longrightarrow>
      extractJson env (JArr (JObj kvs # rest)) =
        (case regex_match text of
           None \<Rightarrow> Inl (Error ''No valid JSON found in response'')
         | Some jsonMatch \<Rightarrow>
             (case JSON_parse env jsonMatch of None \<Rightarrow> Inl SyntaxError | Some v \<Rightarrow> Inr v))) \<and>
   (fetch env (hfRequest cfg prompt) = FetchResponse st (BodyJson data) \<and> 200 \<le> st \<and> st \<le> 299 \<longrightarrow>
      fst (fetchHuggingFace cfg env prompt) = Settles (extractJson env data))"
proof (intro conjI impI)
  show "regex_match text = Some m \<longleftrightarrow>
      (\<exists>pre mid post. text = pre @ m @ post \<and> m = CHR ''{'' # mid @ [CHR ''}''] \<and>
         CHR ''{'' \<notin> set pre \<and> CHR ''}'' \<notin> set post)"
    by (rule regex_match_iff)
  show "regex_match text = None \<longleftrightarrow>
      \<not> (\<exists>pre mid post. text = pre @ CHR ''{'' # mid @ CHR ''}'' # post)"
    by (rule regex_match_None_iff)
  show "extractJson env (JArr (JObj kvs # rest)) =
        (case regex_match text of
           None \<Rightarrow> Inl (Error ''No valid JSON found in response'')
         | Some jsonMatch \<Rightarrow>
             (case JSON_parse env jsonMatch of None \<Rightarrow> Inl SyntaxError | Some v \<Rightarrow> Inr v))"
    if "map_of kvs ''generated_text'' = Some (JStr text)"
    using that
    by (simp add: extractJson_def index0_def optProp_def getProp_def optMatch_def
        split: option.splits)
  show "fst (fetchHuggingFace cfg env prompt) = Settles (extractJson env data)"
    if "fetch env (hfRequest cfg prompt) = FetchResponse st (BodyJson data) \<and> 200 \<le> st \<and> st \<le> 299"
    using that by (simp add: fetchHuggingFace_def Let_def)
qed

theorem extractJson_first_to_last_brace_witness:
  \<open>extractJson (exampleEnv FetchAborted randomZero)
      (JArr [JObj [(''generated_text'', JStr ''Pick: {"title":"b"} ok'')]])
     = Inr (JObj [(''title'', JStr ''b'')])\<close>
proof -
  have m: \<open>regex_match ''Pick: {"title":"b"} ok'' = Some ''{"title":"b"}''\<close>
    by code_simp
  have p: \<open>JSON_parse (exampleEnv FetchAborted randomZero) ''{"title":"b"}'' = Some (JObj [(''title'', JStr ''b'')])\<close>
    by (simp add: exampleEnv_def exampleParse_def)
  have kv: \<open>map_of [(''generated_text'', JStr ''Pick: {"title":"b"} ok'')] ''generated_text''
      = Some (JStr ''Pick: {"title":"b"} ok'')\<close>
    by simp
  from extractJson_first_to_last_brace
    [of \<open>''Pick: {"title":"b"} ok''\<close> _ \<open>[(''generated_text'', JStr ''Pick: {"title":"b"} ok'')]\<close>
        "exampleEnv FetchAborted randomZero" "[]", THEN conjunct2, THEN conjunct2, THEN conjunct1,
        THEN mp, OF kv]
  have \<open>extractJson (exampleEnv FetchAborted randomZero)
      (JArr [JObj [(''generated_text'', JStr ''Pick: {"title":"b"} ok'')]])
     = (case regex_match ''Pick: {"title":"b"} ok'' of
           None \<Rightarrow> Inl (Error ''No valid JSON found in response'')
         | Some jsonMatch \<Rightarrow>
             (case JSON_parse (exampleEnv FetchAborted randomZero) jsonMatch of
                None \<Rightarrow> Inl SyntaxError | Some v \<Rightarrow> Inr v))\<close> .
  then show ?thesis
    by (simp add: m p)
qed

text \<open>
  Claim C6 as stated fails on a text with two objects: the match runs to the last closing
  brace, it is not the first top-level span.
\<close>

theorem extractJson_first_span_counterexample:
  \<open>regex_match ''{"title":"A"} or {"title":"B"}'' = Some ''{"title":"A"} or {"title":"B"}'' \<and>
   first_top_level_span ''{"title":"A"} or {"title":"B"}'' = Some ''{"title":"A"}''\<close>
  by code_simp

text \<open>
  Claim C7, as amended. When the call is reached and the parsed response has a title that
  is a non-empty string: if the title of some candidate equals it once both are
  lower-cased, \<^verbatim>\<open>selectWithAI\<close> returns the first such candidate; if none does, it returns
  the random choice. With any other title (none, the empty string, or a value that is no
  string) it returns the random choice.
\<close>

theorem selectWithAI_title_match:
  "(aiCallReached cfg env candidates \<and>
    fst (fetchHuggingFace cfg env (aiPrompt cfg candidates)) = Settles (Inr result) \<and>
    getProp result ''title'' = Some (JStr t) \<and> t \<noteq> [] \<longrightarrow>
      ((\<exists>c \<in> set candidates. titleMatches t c) \<longrightarrow>
          fst (selectWithAI cfg env candidates) = Settles (find (titleMatches t) candidates) \<and>
          (\<exists>c \<in> set candidates. titleMatches t c \<and> fst (selectWithAI cfg env candidates) = Settles (Some c))) \<and>
      (\<not> (\<exists>c \<in> set candidates. titleMatches t c) \<longrightarrow>
          fst (selectWithAI cfg env candidates) = Settles (selectRandom (random env) candidates))) \<and>
   (aiCallReached cfg env candidates \<and>
    fst (fetchHuggingFace cfg env (aiPrompt cfg candidates)) = Settles (Inr result) \<and>
    \<not> (\<exists>t. getProp result ''title'' = Some (JStr t) \<and> t \<noteq> []) \<longrightarrow>
      fst (selectWithAI cfg env candidates) = Settles (selectRandom (random env) candidates)) \<and>
   (\<forall>c. titleMatches t c \<longleftrightarrow> toLowerCase (title c) = toLowerCase t)"
proof (intro conjI impI allI)
  assume h: "aiCallReached cfg env candidates \<and>
    fst (fetchHuggingFace cfg env (aiPrompt cfg candidates)) = Settles (Inr result) \<and>
    getProp result ''title'' = Some (JStr t) \<and> t \<noteq> []"
  then have sel: "fst (selectWithAI cfg env candidates) =
      Settles (case find (titleMatches t) candidates of
            Some selectedShow \<Rightarrow> Some selectedShow
          | None \<Rightarrow> selectRandom (random env) candidates)"
    by (simp add: selectWithAI_reached matchResult_string_title)
  {
    assume "\<exists>c \<in> set candidates. titleMatches t c"
    then obtain c where c: "find (titleMatches t) candidates = Some c"
      by (cases "find (titleMatches t) candidates") (auto simp: find_None_iff')
    with sel show "fst (selectWithAI cfg env candidates) = Settles (find (titleMatches t) candidates)"
      by simp
    from c sel find_in_set [OF c]
    show "\<exists>c \<in> set candidates. titleMatches t c \<and> fst (selectWithAI cfg env candidates) = Settles (Some c)"
      by auto
  }
  {
    assume "\<not> (\<exists>c \<in> set candidates. titleMatches t c)"
    then have "find (titleMatches t) candidates = None" by (simp add: find_None_iff')
    with sel show "fst (selectWithAI cfg env candidates) = Settles (selectRandom (random env) candidates)"
      by simp
  }
next
  assume h: "aiCallReached cfg env candidates \<and>
    fst (fetchHuggingFace cfg env (aiPrompt cfg candidates)) = Settles (Inr result) \<and>
    \<not> (\<exists>t. getProp result ''title'' = Some (JStr t) \<and> t \<noteq> [])"
  then have "(case matchResult (random env) candidates result of
             Inl e \<Rightarrow> selectRandom (random env) candidates
           | Inr selected \<Rightarrow> selected) = selectRandom (random env) candidates"
    by (intro matchResult_other_title) simp
  with h show "fst (selectWithAI cfg env candidates) = Settles (selectRandom (random env) candidates)"
    by (simp add: selectWithAI_reached)
next
  fix c show "titleMatches t c \<longleftrightarrow> toLowerCase (title c) = toLowerCase t"
    by (simp add: titleMatches_def)
qed

theorem selectWithAI_title_match_witness:
  \<open>fst (selectWithAI configured (exampleEnv (hfResponse ''{"title":"b"}'') randomZero) [exampleA, exampleB])
     = Settles (Some exampleB) \<and>
   fst (selectWithAI configured (exampleEnv (hfResponse ''{"title":"b"}'') randomZero) [exampleA, exampleX])
     = Settles (Some exampleA)\<close>
proof -
  let ?env = \<open>exampleEnv (hfResponse ''{"title":"b"}'') randomZero\<close>
  let ?result = "JObj [(''title'', JStr ''b'')]"
  have t: "getProp ?result ''title'' = Some (JStr ''b'')" "''b'' \<noteq> []"
    by (simp_all add: getProp_def)
  have mB: "titleMatches ''b'' exampleB" by code_simp
  have nA: "\<not> titleMatches ''b'' exampleA" by code_simp
  have nX: "\<not> titleMatches ''b'' exampleX" by code_simp
  have reachedX: "aiCallReached configured ?env [exampleA, exampleX]"
  proof -
    have "blobSize (aiPrompt configured [exampleA, exampleX]) \<le> 8000" by code_simp
    then show ?thesis
      by (simp add: aiCallReached_def configured_def AI_CONFIG_def exampleEnv_def)
  qed
  have inB: "\<exists>c \<in> set [exampleA, exampleB]. titleMatches ''b'' c"
    using mB by simp
  have notX: "\<not> (\<exists>c \<in> set [exampleA, exampleX]. titleMatches ''b'' c)"
    using nA nX by simp
  have rnd: "random ?env = randomZero" by (simp add: exampleEnv_def)
  have "fst (selectWithAI configured ?env [exampleA, exampleB]) = Settles (find (titleMatches ''b'') [exampleA, exampleB])"
    using selectWithAI_title_match [of configured ?env "[exampleA, exampleB]" ?result "''b''"]
      reached_example fetch_example_b t inB by blast
  then have first: "fst (selectWithAI configured ?env [exampleA, exampleB]) = Settles (Some exampleB)"
    by (simp only: find_example_b)
  have "fst (selectWithAI configured ?env [exampleA, exampleX]) = Settles (selectRandom (random ?env) [exampleA, exampleX])"
    using selectWithAI_title_match [of configured ?env "[exampleA, exampleX]" ?result "''b''"]
      reachedX fetch_example_b t notX by blast
  then have "fst (selectWithAI configured ?env [exampleA, exampleX]) = Settles (Some exampleA)"
    by (simp only: rnd selectRandom_zero)
  with first show ?thesis by (rule conjI)
qed

text \<open>
  Claim C7 as stated fails for the empty title: it is a title field, a candidate with the
  empty title equals it, and the selector returns the random choice, here another
  candidate.
\<close>

theorem selectWithAI_empty_title_counterexample:
  \<open>fst (selectWithAI configured (exampleEnv (hfResponse ''{"title":""}'') randomZero) [exampleX, exampleUntitled])
     = Settles (Some exampleX) \<and>
   toLowerCase (title exampleUntitled) = toLowerCase [] \<and>
   toLowerCase (title exampleX) \<noteq> toLowerCase []\<close>
proof -
  let ?env = \<open>exampleEnv (hfResponse ''{"title":""}'') randomZero\<close>
  have reached: "aiCallReached configured ?env [exampleX, exampleUntitled]"
  proof -
    have "blobSize (aiPrompt configured [exampleX, exampleUntitled]) \<le> 8000" by code_simp
    then show ?thesis
      by (simp add: aiCallReached_def configured_def AI_CONFIG_def exampleEnv_def)
  qed
  have mr: "matchResult randomZero [exampleX, exampleUntitled] (JObj [(''title'', JStr [])])
      = Inr (selectRandom randomZero [exampleX, exampleUntitled])"
    by (simp add: matchResult_def truthy_def getProp_def)
  have rnd: "random ?env = randomZero" by (simp add: exampleEnv_def)
  have "fst (selectWithAI configured ?env [exampleX, exampleUntitled]) = Settles (Some exampleX)"
    unfolding selectWithAI_reached [OF reached] fetch_example_empty rnd
    by (simp add: mr selectRandom_zero)
  moreover have "toLowerCase (title exampleUntitled) = toLowerCase []"
    by (simp add: exampleUntitled_def mkShow_def)
  moreover have "toLowerCase (title exampleX) \<noteq> toLowerCase []"
    by (simp add: exampleX_def mkShow_def toLowerCase_def)
  ultimately show ?thesis by blast
qed

text \<open>
  Claim C10. What \<^verbatim>\<open>selectRandom\<close> and \<^verbatim>\<open>selectWithAI\<close> return is the empty result or one
  of the given candidates. The candidate that the response names is looked up in the whole
  list, not only among the candidates that the prompt lists.
\<close>

theorem selectors_pick_from_candidates:
  "(selectRandom r candidates = Some c \<longrightarrow> c \<in> set candidates) \<and>
   (fst (selectWithAI cfg env candidates) = Settles (Some c) \<longrightarrow> c \<in> set candidates) \<and>
   (aiCallReached cfg env candidates \<and>
    fst (fetchHuggingFace cfg env (aiPrompt cfg candidates)) = Settles (Inr result) \<and>
    getProp result ''title'' = Some (JStr t) \<and> t \<noteq> [] \<and>
    find (titleMatches t) candidates = Some c \<longrightarrow>
      fst (selectWithAI cfg env candidates) = Settles (Some c))"
proof (intro conjI impI)
  assume "selectRandom r candidates = Some c"
  then show "c \<in> set candidates" by (rule selectRandom_in_set)
next
  assume s: "fst (selectWithAI cfg env candidates) = Settles (Some c)"
  then have "fst (selectWithAI cfg env candidates) \<noteq> NeverSettles" by simp
  with selectWithAI_result_cases [of cfg env candidates]
  have "fst (selectWithAI cfg env candidates) = Settles (selectRandom (random env) candidates) \<or>
   (\<exists>t c. find (titleMatches t) candidates = Some c \<and>
      fst (selectWithAI cfg env candidates) = Settles (Some c))" by blast
  then show "c \<in> set candidates"
  proof
    assume "fst (selectWithAI cfg env candidates) = Settles (selectRandom (random env) candidates)"
    with s show ?thesis by (simp add: selectRandom_in_set)
  next
    assume "\<exists>t c. find (titleMatches t) candidates = Some c \<and>
      fst (selectWithAI cfg env candidates) = Settles (Some c)"
    with s show ?thesis by (auto dest: find_in_set)
  qed
next
  assume "aiCallReached cfg env candidates \<and>
    fst (fetchHuggingFace cfg env (aiPrompt cfg candidates)) = Settles (Inr result) \<and>
    getProp result ''title'' = Some (JStr t) \<and> t \<noteq> [] \<and>
    find (titleMatches t) candidates = Some c"
  then show "fst (selectWithAI cfg env candidates) = Settles (Some c)"
    by (simp add: selectWithAI_reached matchResult_string_title)
qed

theorem selectors_pick_from_candidates_witness:
  \<open>fst (selectWithAI (configured\<lparr>maxCandidates := 1\<rparr>) (exampleEnv (hfResponse ''{"title":"b"}'') randomZero)
       [exampleA, exampleB]) = Settles (Some exampleB) \<and>
   exampleB \<in> set [exampleA, exampleB] \<and>
   exampleB \<notin> set (take (maxCandidates (configured\<lparr>maxCandidates := 1\<rparr>)) [exampleA, exampleB])\<close>
proof -
  let ?cfg = "configured\<lparr>maxCandidates := 1\<rparr>"
  let ?env = \<open>exampleEnv (hfResponse ''{"title":"b"}'') randomZero\<close>
  let ?result = "JObj [(''title'', JStr ''b'')]"
  have t: "getProp ?result ''title'' = Some (JStr ''b'')" "''b'' \<noteq> []"
    by (simp_all add: getProp_def)
  have reached: "aiCallReached ?cfg ?env [exampleA, exampleB]"
  proof -
    have "blobSize (aiPrompt ?cfg [exampleA, exampleB]) \<le> 8000" by code_simp
    then show ?thesis
      by (simp add: aiCallReached_def configured_def AI_CONFIG_def exampleEnv_def)
  qed
  have sel: "fst (selectWithAI ?cfg ?env [exampleA, exampleB]) = Settles (Some exampleB)"
    using selectors_pick_from_candidates [of randomZero "[exampleA, exampleB]" exampleB ?cfg ?env ?result "''b''"]
      reached fetch_example_b t find_example_b by blast
  have "exampleA \<noteq> exampleB" by (simp add: exampleA_def exampleB_def mkShow_def)
  then have "exampleB \<notin> set (take (maxCandidates ?cfg) [exampleA, exampleB])"
    by (simp add: configured_def)
  with sel show ?thesis by simp
qed

subsection \<open>Presenter\<close>

lemma replaceAll_concat:
  "replaceAll c r (concat xs) = concat (map (replaceAll c r) xs)"
  by (induction xs) (simp_all add: replaceAll_def)

lemma replaceAll_as_concat: "replaceAll c r s = concat (map (\<lambda>x. replaceAll c r [x]) s)"
  by (simp add: replaceAll_def)

lemma escape_one:
  \<open>replaceAll (CHR 0x27) ''&#039;''
     (replaceAll (CHR 0x22) ''&quot;''
       (replaceAll (CHR ''>'') ''&gt;''
         (replaceAll (CHR ''<'') ''&lt;''
           (replaceAll (CHR ''&'') ''&amp;'' [c])))) = escapeChar c\<close>
  by (simp add: replaceAll_def escapeChar_def)

lemma escapeHtml_concat: "escapeHtml s = concat (map escapeChar s)"
proof -
  have \<open>replaceAll (CHR 0x27) ''&#039;''
     (replaceAll (CHR 0x22) ''&quot;''
       (replaceAll (CHR ''>'') ''&gt;''
         (replaceAll (CHR ''<'') ''&lt;''
           (replaceAll (CHR ''&'') ''&amp;'' s)))) = concat (map escapeChar s)\<close>
    by (subst replaceAll_as_concat [of \<open>CHR ''&''\<close>])
       (simp only: replaceAll_concat map_map comp_def escape_one)
  then show ?thesis by (simp add: escapeHtml_def)
qed

lemma unescapeHtml_escapeChar: "unescapeHtml (escapeChar c @ rest) = c # unescapeHtml rest"
  by (simp add: escapeChar_def)

lemma unescapeHtml_escapeHtml: "unescapeHtml (escapeHtml s) = s"
  unfolding escapeHtml_concat
  by (induction s) (simp_all add: unescapeHtml_escapeChar)

lemma escapeHtml_no_markup:
  assumes "c \<in> set (escapeHtml s)"
  shows "c \<noteq> CHR ''<'' \<and> c \<noteq> CHR ''>'' \<and> c \<noteq> CHR 0x22 \<and> c \<noteq> CHR 0x27"
proof -
  from assms obtain x where "c \<in> set (escapeChar x)"
    unfolding escapeHtml_concat by auto
  then show ?thesis
    by (auto simp: escapeChar_def split: if_splits)
qed

lemma splitSentences_not_Nil: "splitSentences d \<noteq> []"
  by (induction d rule: splitSentences.induct) (auto split: list.splits)

lemma splitSentences_pieces:
  "p \<in> set (splitSentences d) \<Longrightarrow> c \<in> set p \<Longrightarrow> \<not> isBoundary c"
proof (induction d arbitrary: p rule: splitSentences.induct)
  case 1
  then show ?case by simp
next
  case (2 x xs)
  show ?case
  proof (cases "isBoundary x")
    case True
    with 2 show ?thesis by auto
  next
    case False
    obtain q qs where q: "splitSentences xs = q # qs"
      using splitSentences_not_Nil [of xs] by (cases "splitSentences xs") auto
    with False "2.prems" have "p = x # q \<or> p \<in> set qs" by simp
    then show ?thesis
    proof
      assume p: "p = x # q"
      with "2.prems" have "c = x \<or> c \<in> set q" by simp
      then show ?thesis
      proof
        assume "c = x" with False show ?thesis by simp
      next
        assume "c \<in> set q"
        moreover have "q \<in> set (splitSentences xs)" using q by simp
        ultimately show ?thesis using "2.IH"(2) [OF False] by blast
      qed
    next
      assume "p \<in> set qs"
      then have "p \<in> set (splitSentences xs)" using q by simp
      with "2.prems" show ?thesis using "2.IH"(2) [OF False] by blast
    qed
  qed
qed

lemma splitSentences_next:
  "splitSentences d = p # q # qs \<Longrightarrow>
     \<exists>run rest. d = p @ run @ rest \<and> run \<noteq> [] \<and> (\<forall>c \<in> set run. isBoundary c) \<and>
        splitSentences rest = q # qs"
proof (induction d arbitrary: p rule: splitSentences.induct)
  case 1
  then show ?case by simp
next
  case (2 x xs)
  show ?case
  proof (cases "isBoundary x")
    case True
    with "2.prems" have p: "p = []" and rest: "splitSentences (dropWhile isBoundary xs) = q # qs"
      by simp_all
    have "x # xs = p @ (x # takeWhile isBoundary xs) @ dropWhile isBoundary xs"
      using p by simp
    moreover have "\<forall>c \<in> set (x # takeWhile isBoundary xs). isBoundary c"
      using True by (auto dest: set_takeWhileD)
    ultimately show ?thesis using rest by blast
  next
    case False
    obtain p' ps where s: "splitSentences xs = p' # ps"
      using splitSentences_not_Nil [of xs] by (cases "splitSentences xs") auto
    with False "2.prems" have p: "p = x # p'" and ps: "ps = q # qs" by simp_all
    from "2.IH"(2) [OF False, of p'] s ps obtain run rest
      where "xs = p' @ run @ rest" "run \<noteq> []" "\<forall>c \<in> set run. isBoundary c"
        "splitSentences rest = q # qs"
      by blast
    with p have "x # xs = p @ run @ rest \<and> run \<noteq> [] \<and> (\<forall>c \<in> set run. isBoundary c) \<and>
        splitSentences rest = q # qs" by simp
    then show ?thesis by blast
  qed
qed

lemma splitSentences_first_two:
  assumes "splitSentences d = p0 # p1 # p2 # ps"
  shows "\<exists>r1 r2 rest. d = p0 @ r1 @ p1 @ r2 @ rest \<and> r1 \<noteq> [] \<and> r2 \<noteq> [] \<and>
           (\<forall>c \<in> set (r1 @ r2). isBoundary c)"
proof -
  from splitSentences_next [OF assms] obtain r1 rest1
    where 1: "d = p0 @ r1 @ rest1" "r1 \<noteq> []" "\<forall>c \<in> set r1. isBoundary c"
      "splitSentences rest1 = p1 # p2 # ps" by blast
  from splitSentences_next [OF 1(4)] obtain r2 rest
    where 2: "rest1 = p1 @ r2 @ rest" "r2 \<noteq> []" "\<forall>c \<in> set r2. isBoundary c" by blast
  from 1 2 have "d = p0 @ r1 @ p1 @ r2 @ rest \<and> r1 \<noteq> [] \<and> r2 \<noteq> [] \<and>
           (\<forall>c \<in> set (r1 @ r2). isBoundary c)" by auto
  then show ?thesis by blast
qed

lemma resultDescription_short:
  assumes "firstTruthy [description sh, notes sh, overview sh] = d" "length (splitSentences d) \<le> 2"
  shows "resultDescription sh = d"
  using assms by (simp add: resultDescription_def Let_def)

lemma resultDescription_long:
  assumes "firstTruthy [description sh, notes sh, overview sh] = d"
    "splitSentences d = p0 # p1 # p2 # ps"
  shows "resultDescription sh = p0 @ ''.'' @ p1 @ ''.''"
  using assms by (simp add: resultDescription_def Let_def)

text \<open>
  Claim C9. The presenter shows the empty-state panel when there is no show, and a card
  otherwise, but the card is not the one of the claim. The description is not cut after
  its first two sentences, as the comment of line 312 has it: its pieces are joined again
  with full stops, so a sentence that ends in \<open>!\<close> or \<open>?\<close> is shown ending in a full stop,
  and what is shown is no prefix of the description; this happens also when the
  description has two sentences and nothing is cut. And the title is escaped in the
  heading of the card only: beside a poster it stands unescaped in the \<open>alt\<close> attribute.
\<close>

theorem showResult_rewrites_sentence_ends:
  \<open>splitSentences ''Hi! There? Yes.'' = [''Hi'', '' There'', '' Yes'', []] \<and>
   resultDescription (describedShow ''Hi! There? Yes.'') = ''Hi. There.'' \<and>
   \<not> prefix ''Hi. There.'' ''Hi! There? Yes.'' \<and>
   splitSentences ''Hi! There?'' = [''Hi'', '' There'', []] \<and>
   resultDescription (describedShow ''Hi! There?'') = ''Hi. There.'' \<and>
   resultDescription (describedShow ''One. Two'') = ''One. Two'' \<and>
   title posterShow = ''<b>Tom & Jerry</b>'' \<and>
   resultHtml (showResult (Some posterShow) pageBefore) =
     ''\<newline>    <img src="p.png" alt="<b>Tom & Jerry</b>" class="result-poster">'' @
     ''\<newline>    <h3 class="result-title">&lt;b&gt;Tom &amp; Jerry&lt;/b&gt;</h3>'' @
     ''\<newline>    <p class="result-description">Hi. There.</p>'' @
     ''\<newline>    <button id="open-detail-btn" class="btn-primary">View Details</button>\<newline>  '' \<and>
   \<not> resultHidden (showResult (Some posterShow) pageBefore) \<and>
   noResultsHidden (showResult (Some posterShow) pageBefore) \<and>
   showResult None pageBefore = pageBefore\<lparr>resultHidden := True, noResultsHidden := False\<rparr>\<close>
  by code_simp

end
